theory Spec2Isabelle
  imports Complex_Main "HOL-Library.Word" "HOL-Library.Multiset" "HOL-Library.Sublist"
begin

unbundle bit_operations_syntax

section \<open>Faith's phylogenetic diversity over a compact tree\<close>

subsection \<open>The tree interface\<close>

text \<open>
  \<^verbatim>\<open>compact_tree.h\<close> is not among the sources, so the class \<^verbatim>\<open>compact_tree\<close> is a
  parameter of everything below: a record with one field for each const method that the
  programs call, holding what the method returns. Node ids are \<^verbatim>\<open>CT_NODE_T\<close>, an
  unsigned 32-bit integer (the dump utility hands them to \<^verbatim>\<open>write_u32\<close>). A node id is
  in range when it is below \<open>get_num_nodes\<close>. Labels are strings of bytes.
  \<open>find_mrca\<close> takes the \<^verbatim>\<open>unordered_set\<close> of leaf ids as a set; nothing is assumed
  about the node it returns except where a statement says so.

  The arithmetic of \<^verbatim>\<open>double\<close> is a type parameter \<open>'a\<close> with \<open>0\<close> and \<open>+\<close>:
  \<open>get_edge_length\<close> gives the edge length already converted to the accumulator type
  (the conversion from \<^verbatim>\<open>float\<close> is exact). Results that hold for every such type hold
  for binary64 with rounding; results that need the laws of exact addition say so in their
  sort.
\<close>

type_synonym CT_NODE_T = "32 word"

text \<open>
  Modelled from the spec: the constant \<^verbatim>\<open>NULL_NODE\<close> of \<^verbatim>\<open>compact_tree.h\<close>, the value
  that \<^verbatim>\<open>get_parent\<close> returns for the root. The specification and the header comment of
  \<^verbatim>\<open>dump_tree_structure.cpp\<close> give it as \<^verbatim>\<open>0xFFFFFFFF\<close>.
\<close>

definition NULL_NODE :: CT_NODE_T where
  "NULL_NODE = 0xFFFFFFFF"

record 'a compact_tree =
  get_num_nodes :: nat
  get_num_leaves :: nat
  get_parent :: "CT_NODE_T \<Rightarrow> CT_NODE_T"
  get_children :: "CT_NODE_T \<Rightarrow> CT_NODE_T list"
  get_label :: "CT_NODE_T \<Rightarrow> 8 word list"
  get_edge_length :: "CT_NODE_T \<Rightarrow> 'a"
  find_mrca :: "CT_NODE_T set \<Rightarrow> CT_NODE_T"

text \<open>
  A call either returns a value (\<open>Some (Inr v)\<close>), or touches an index outside
  \<open>[0, num_nodes)\<close> (\<open>Some (Inl OutOfRange)\<close>: an unchecked vector subscript, or an
  accessor called with an id that is not a node), or never leaves its loop (\<open>None\<close>).
\<close>

datatype error = OutOfRange

subsection \<open>\<^verbatim>\<open>calculate_faiths_pd_optimized\<close> and \<^verbatim>\<open>calculate_faiths_pd_batch\<close>\<close>

text \<open>
  The while loop of one leaf, with \<^verbatim>\<open>vector<uint8_t> visited\<close>:
  \<^verbatim>\<open>
  while (current != mrca) {
      if (!visited[current]) {
          total_pd += tree.get_edge_length(current);
          visited[current] = 1;
      }
      current = tree.get_parent(current);
  }
  \<close>
  The state is the pair \<open>(visited, total_pd)\<close>. The same loop stands in
  \<^verbatim>\<open>calculate_faiths_pd_optimized\<close>, \<^verbatim>\<open>calculate_faiths_pd_batch\<close> and
  \<^verbatim>\<open>calculate_faiths_pd_vectoruint8\<close>.
\<close>

partial_function (option) walk_uint8 ::
  "('a::plus) compact_tree \<Rightarrow> CT_NODE_T \<Rightarrow> 8 word list \<times> 'a \<Rightarrow> CT_NODE_T
     \<Rightarrow> (error + 8 word list \<times> 'a) option" where
  "walk_uint8 tree mrca st current =
     (if current \<noteq> mrca then
        (if unat current < length (fst st) then
           walk_uint8 tree mrca
             (if fst st ! unat current = 0
              then ((fst st)[unat current := 1], snd st + get_edge_length tree current)
              else st)
             (get_parent tree current)
         else Some (Inl OutOfRange))
      else Some (Inr st))"

declare walk_uint8.simps [code]

text \<open>The loop \<^verbatim>\<open>for (CT_NODE_T leaf : leaf_nodes)\<close> around it.\<close>

fun leaves_uint8 ::
  "('a::plus) compact_tree \<Rightarrow> CT_NODE_T \<Rightarrow> 8 word list \<times> 'a \<Rightarrow> CT_NODE_T list
     \<Rightarrow> (error + 8 word list \<times> 'a) option" where
  "leaves_uint8 tree mrca st [] = Some (Inr st)"
| "leaves_uint8 tree mrca st (leaf # rest) =
     (case walk_uint8 tree mrca st leaf of
        None \<Rightarrow> None
      | Some (Inl e) \<Rightarrow> Some (Inl e)
      | Some (Inr st') \<Rightarrow> leaves_uint8 tree mrca st' rest)"

definition calculate_faiths_pd_optimized ::
  "('a::{zero,plus}) compact_tree \<Rightarrow> CT_NODE_T list \<Rightarrow> (error + 'a) option" where
  "calculate_faiths_pd_optimized tree leaf_nodes =
     (if length leaf_nodes = 0 then Some (Inr 0)
      else if length leaf_nodes = 1 then Some (Inr 0)
      else
        let leaf_set = set leaf_nodes;
            mrca = find_mrca tree leaf_set;
            num_nodes = get_num_nodes tree;
            visited = replicate num_nodes 0;
            total_pd = 0
        in map_option (map_sum id snd) (leaves_uint8 tree mrca (visited, total_pd) leaf_nodes))"

text \<open>
  The batch keeps one \<open>visited\<close> vector for all guilds and refills it with zeros
  (\<^verbatim>\<open>fill(visited.begin(), visited.end(), 0)\<close>) before each guild of two or more leaves.
  The loop state is the pair of the vector and the results pushed so far.
\<close>

fun batch_loop ::
  "('a::{zero,plus}) compact_tree \<Rightarrow> 8 word list \<Rightarrow> 'a list \<Rightarrow> CT_NODE_T list list
     \<Rightarrow> (error + 'a list) option" where
  "batch_loop tree visited results [] = Some (Inr results)"
| "batch_loop tree visited results (leaf_nodes # rest) =
     (if length leaf_nodes < 2 then batch_loop tree visited (results @ [0]) rest
      else
        let leaf_set = set leaf_nodes;
            mrca = find_mrca tree leaf_set;
            visited0 = map (\<lambda>_. 0) visited;
            total_pd = 0
        in case leaves_uint8 tree mrca (visited0, total_pd) leaf_nodes of
             None \<Rightarrow> None
           | Some (Inl e) \<Rightarrow> Some (Inl e)
           | Some (Inr (visited', total_pd')) \<Rightarrow>
               batch_loop tree visited' (results @ [total_pd']) rest)"

definition calculate_faiths_pd_batch ::
  "('a::{zero,plus}) compact_tree \<Rightarrow> CT_NODE_T list list \<Rightarrow> (error + 'a list) option" where
  "calculate_faiths_pd_batch tree guilds =
     (let results = [];
          num_nodes = get_num_nodes tree;
          visited = replicate num_nodes 0
      in batch_loop tree visited results guilds)"


subsection \<open>The three variants of \<^verbatim>\<open>benchmark_pd_calculation_only.cpp\<close>\<close>

text \<open>
  \<^verbatim>\<open>calculate_faiths_pd_original\<close> marks nodes in an \<^verbatim>\<open>unordered_set<CT_NODE_T>\<close>:
  \<^verbatim>\<open>
  while (current != mrca) {
      if (visited.find(current) == visited.end()) {
          total_pd += tree.get_edge_length(current);
          visited.insert(current);
      }
      current = tree.get_parent(current);
  }
  \<close>
  No vector bounds the node id here: the accessors are called with \<open>current\<close> whatever
  it is. Modelled from the spec: the accessors of the tree fail with an out-of-range error
  when the node is not in \<open>[0, num_nodes)\<close>; the walk stops there with \<open>OutOfRange\<close>.
\<close>

partial_function (option) walk_original ::
  "('a::plus) compact_tree \<Rightarrow> CT_NODE_T \<Rightarrow> CT_NODE_T set \<times> 'a \<Rightarrow> CT_NODE_T
     \<Rightarrow> (error + CT_NODE_T set \<times> 'a) option" where
  "walk_original tree mrca st current =
     (if current \<noteq> mrca then
        (if unat current < get_num_nodes tree then
           walk_original tree mrca
             (if current \<notin> fst st
              then (insert current (fst st), snd st + get_edge_length tree current)
              else st)
             (get_parent tree current)
         else Some (Inl OutOfRange))
      else Some (Inr st))"

declare walk_original.simps [code]

fun leaves_original ::
  "('a::plus) compact_tree \<Rightarrow> CT_NODE_T \<Rightarrow> CT_NODE_T set \<times> 'a \<Rightarrow> CT_NODE_T list
     \<Rightarrow> (error + CT_NODE_T set \<times> 'a) option" where
  "leaves_original tree mrca st [] = Some (Inr st)"
| "leaves_original tree mrca st (leaf # rest) =
     (case walk_original tree mrca st leaf of
        None \<Rightarrow> None
      | Some (Inl e) \<Rightarrow> Some (Inl e)
      | Some (Inr st') \<Rightarrow> leaves_original tree mrca st' rest)"

definition calculate_faiths_pd_original ::
  "('a::{zero,plus}) compact_tree \<Rightarrow> CT_NODE_T list \<Rightarrow> (error + 'a) option" where
  "calculate_faiths_pd_original tree leaf_nodes =
     (if length leaf_nodes < 2 then Some (Inr 0)
      else
        let leaf_set = set leaf_nodes;
            mrca = find_mrca tree leaf_set;
            visited = {};
            total_pd = 0
        in map_option (map_sum id snd) (leaves_original tree mrca (visited, total_pd) leaf_nodes))"

text \<open>\<^verbatim>\<open>calculate_faiths_pd_vectorbool\<close>: the marker is a \<^verbatim>\<open>vector<bool>\<close>.\<close>

partial_function (option) walk_vectorbool ::
  "('a::plus) compact_tree \<Rightarrow> CT_NODE_T \<Rightarrow> bool list \<times> 'a \<Rightarrow> CT_NODE_T
     \<Rightarrow> (error + bool list \<times> 'a) option" where
  "walk_vectorbool tree mrca st current =
     (if current \<noteq> mrca then
        (if unat current < length (fst st) then
           walk_vectorbool tree mrca
             (if \<not> fst st ! unat current
              then ((fst st)[unat current := True], snd st + get_edge_length tree current)
              else st)
             (get_parent tree current)
         else Some (Inl OutOfRange))
      else Some (Inr st))"

declare walk_vectorbool.simps [code]

fun leaves_vectorbool ::
  "('a::plus) compact_tree \<Rightarrow> CT_NODE_T \<Rightarrow> bool list \<times> 'a \<Rightarrow> CT_NODE_T list
     \<Rightarrow> (error + bool list \<times> 'a) option" where
  "leaves_vectorbool tree mrca st [] = Some (Inr st)"
| "leaves_vectorbool tree mrca st (leaf # rest) =
     (case walk_vectorbool tree mrca st leaf of
        None \<Rightarrow> None
      | Some (Inl e) \<Rightarrow> Some (Inl e)
      | Some (Inr st') \<Rightarrow> leaves_vectorbool tree mrca st' rest)"

definition calculate_faiths_pd_vectorbool ::
  "('a::{zero,plus}) compact_tree \<Rightarrow> CT_NODE_T list \<Rightarrow> (error + 'a) option" where
  "calculate_faiths_pd_vectorbool tree leaf_nodes =
     (if length leaf_nodes < 2 then Some (Inr 0)
      else
        let leaf_set = set leaf_nodes;
            mrca = find_mrca tree leaf_set;
            num_nodes = get_num_nodes tree;
            visited = replicate num_nodes False;
            total_pd = 0
        in map_option (map_sum id snd) (leaves_vectorbool tree mrca (visited, total_pd) leaf_nodes))"

text \<open>
  \<^verbatim>\<open>calculate_faiths_pd_vectoruint8\<close>: the marker is a \<^verbatim>\<open>vector<uint8_t>\<close>; its
  loops are those of \<^verbatim>\<open>calculate_faiths_pd_optimized\<close>, behind a single size test. The
  function named \<^verbatim>\<open>calculate_faiths_pd_optimized\<close> in
  \<^verbatim>\<open>benchmark_compacttree_1000_guilds.cpp\<close> is this one, statement for statement.
\<close>

definition calculate_faiths_pd_vectoruint8 ::
  "('a::{zero,plus}) compact_tree \<Rightarrow> CT_NODE_T list \<Rightarrow> (error + 'a) option" where
  "calculate_faiths_pd_vectoruint8 tree leaf_nodes =
     (if length leaf_nodes < 2 then Some (Inr 0)
      else
        let leaf_set = set leaf_nodes;
            mrca = find_mrca tree leaf_set;
            num_nodes = get_num_nodes tree;
            visited = replicate num_nodes 0;
            total_pd = 0
        in map_option (map_sum id snd) (leaves_uint8 tree mrca (visited, total_pd) leaf_nodes))"

text \<open>
  \<^verbatim>\<open>calculate_faiths_pd\<close> of \<^verbatim>\<open>benchmark_faiths_pd_compacttree.cpp\<close>: the two size
  tests of the optimized function around the loops of the original one.
\<close>

definition calculate_faiths_pd ::
  "('a::{zero,plus}) compact_tree \<Rightarrow> CT_NODE_T list \<Rightarrow> (error + 'a) option" where
  "calculate_faiths_pd tree leaf_nodes =
     (if length leaf_nodes = 0 then Some (Inr 0)
      else if length leaf_nodes = 1 then Some (Inr 0)
      else
        let leaf_set = set leaf_nodes;
            mrca = find_mrca tree leaf_set;
            visited_nodes = {};
            total_pd = 0
        in map_option (map_sum id snd)
             (leaves_original tree mrca (visited_nodes, total_pd) leaf_nodes))"

subsection \<open>\<^verbatim>\<open>dump_tree_structure.cpp\<close>\<close>

text \<open>
  \<^verbatim>\<open>write_u32\<close> and \<^verbatim>\<open>write_f32\<close> copy the object representation of their argument
  to the stream (\<^verbatim>\<open>out.write(reinterpret_cast<const char*>(&value), 4)\<close>), so the order of
  the four bytes is the host's. The stream is the list of bytes written so far. The
  IEEE-754 binary32 pattern of a \<^verbatim>\<open>float\<close> is the parameter \<open>f32_bits\<close>.
\<close>

datatype byte_order = LittleEndian | BigEndian

definition object_bytes :: "byte_order \<Rightarrow> 32 word \<Rightarrow> 8 word list" where
  "object_bytes host v =
     (let lsb_first = [ucast v, ucast (drop_bit 8 v), ucast (drop_bit 16 v), ucast (drop_bit 24 v)]
      in case host of LittleEndian \<Rightarrow> lsb_first | BigEndian \<Rightarrow> rev lsb_first)"

definition write_u32 :: "byte_order \<Rightarrow> 8 word list \<Rightarrow> 32 word \<Rightarrow> 8 word list" where
  "write_u32 host out v = out @ object_bytes host v"

definition write_f32 :: "byte_order \<Rightarrow> ('a \<Rightarrow> 32 word) \<Rightarrow> 8 word list \<Rightarrow> 'a \<Rightarrow> 8 word list" where
  "write_f32 host f32_bits out v = out @ object_bytes host (f32_bits v)"

text \<open>
  \<^verbatim>\<open>uint32_t len = str.length(); write_u32(out, len); out.write(str.c_str(), len);\<close>
  The length is cut to 32 bits, and that many bytes follow.
\<close>

definition write_string :: "byte_order \<Rightarrow> 8 word list \<Rightarrow> 8 word list \<Rightarrow> 8 word list" where
  "write_string host out str =
     (let len = (of_nat (length str) :: 32 word)
      in write_u32 host out len @ take (unat len) str)"

text \<open>The body of the loop over the nodes in \<^verbatim>\<open>main\<close>.\<close>

definition dump_node ::
  "byte_order \<Rightarrow> ('a \<Rightarrow> 32 word) \<Rightarrow> 'a compact_tree \<Rightarrow> 8 word list \<Rightarrow> 32 word \<Rightarrow> 8 word list" where
  "dump_node host f32_bits tree out i =
     (let parent = get_parent tree i;
          out1 = write_u32 host out parent;
          children = get_children tree i;
          out2 = write_u32 host out1 (of_nat (length children));
          out3 = fold (\<lambda>child out'. write_u32 host out' child) children out2;
          label = get_label tree i;
          out4 = write_string host out3 label;
          edge_length = get_edge_length tree i
      in write_f32 host f32_bits out4 edge_length)"

text \<open>\<^verbatim>\<open>for (uint32_t i = 0; i < num_nodes; i++)\<close>, on 32-bit words.\<close>

function dump_nodes ::
  "byte_order \<Rightarrow> ('a \<Rightarrow> 32 word) \<Rightarrow> 'a compact_tree \<Rightarrow> 32 word \<Rightarrow> 32 word \<Rightarrow> 8 word list
     \<Rightarrow> 8 word list" where
  "dump_nodes host f32_bits tree num_nodes i out =
     (if i < num_nodes
      then dump_nodes host f32_bits tree num_nodes (i + 1) (dump_node host f32_bits tree out i)
      else out)"
  by pat_completeness auto
termination
proof (relation "measure (\<lambda>(host, f32_bits, tree, num_nodes, i, out). unat num_nodes - unat i)")
  show "wf (measure (\<lambda>(host :: byte_order, f32_bits :: 'a \<Rightarrow> 32 word, tree :: 'a compact_tree,
              num_nodes :: 32 word, i :: 32 word, out :: 8 word list). unat num_nodes - unat i))"
    by simp
next
  fix host :: byte_order and f32_bits :: "'a \<Rightarrow> 32 word" and tree :: "'a compact_tree"
    and num_nodes i :: "32 word" and out :: "8 word list"
  assume lt: "i < num_nodes"
  then have "i \<noteq> - 1"
    by (metis word_order.extremum_strict)
  then have "1 + i \<noteq> 0"
    by (metis add.commute add_eq_0_iff)
  then have "unat (i + 1) = Suc (unat i)"
    by (simp add: unatSuc add.commute)
  moreover from lt have "unat i < unat num_nodes"
    by (simp add: word_less_nat_alt)
  ultimately show
    "((host, f32_bits, tree, num_nodes, i + 1, dump_node host f32_bits tree out i),
      (host, f32_bits, tree, num_nodes, i, out))
     \<in> measure (\<lambda>(host, f32_bits, tree, num_nodes, i, out). unat num_nodes - unat i)"
    by simp
qed

declare dump_nodes.simps [simp del]

text \<open>
  The part of \<^verbatim>\<open>main\<close> that writes the file: the two counts, cut to \<^verbatim>\<open>uint32_t\<close>,
  then the nodes. The result is the content of the output file.
\<close>

definition dump_tree_structure ::
  "byte_order \<Rightarrow> ('a \<Rightarrow> 32 word) \<Rightarrow> 'a compact_tree \<Rightarrow> 8 word list" where
  "dump_tree_structure host f32_bits tree =
     (let num_nodes = (of_nat (get_num_nodes tree) :: 32 word);
          num_leaves = (of_nat (get_num_leaves tree) :: 32 word);
          out = [];
          out1 = write_u32 host out num_nodes;
          out2 = write_u32 host out1 num_leaves
      in dump_nodes host f32_bits tree num_nodes 0 out2)"


section \<open>Notions of the specification\<close>

subsection \<open>Parent-chain paths\<close>

text \<open>
  \<open>chain tree a n\<close> is the parent chain from \<open>n\<close> up to, and without, \<open>a\<close>: the nodes
  \<open>n\<close>, \<open>get_parent tree n\<close>, ... before the first occurrence of \<open>a\<close>. It is
  \<open>Some (Inl OutOfRange)\<close> when the chain leaves the node range before it meets \<open>a\<close>, and
  \<open>None\<close> when it goes on for ever inside the range without meeting \<open>a\<close>.
\<close>

partial_function (option) chain ::
  "'a compact_tree \<Rightarrow> CT_NODE_T \<Rightarrow> CT_NODE_T \<Rightarrow> (error + CT_NODE_T list) option" where
  "chain tree a n =
     (if n = a then Some (Inr [])
      else if unat n < get_num_nodes tree
      then Option.bind (chain tree a (get_parent tree n)) (\<lambda>r. Some (map_sum id ((#) n) r))
      else Some (Inl OutOfRange))"

declare chain.simps [code]

text \<open>The chains of a list of leaves, one after the other, up to the first that fails.\<close>

fun chains ::
  "'a compact_tree \<Rightarrow> CT_NODE_T \<Rightarrow> CT_NODE_T list \<Rightarrow> (error + CT_NODE_T list) option" where
  "chains tree a [] = Some (Inr [])"
| "chains tree a (leaf # rest) =
     (case chain tree a leaf of
        None \<Rightarrow> None
      | Some (Inl e) \<Rightarrow> Some (Inl e)
      | Some (Inr p) \<Rightarrow> map_option (map_sum id ((@) p)) (chains tree a rest))"

text \<open>\<open>a\<close> is an ancestor of \<open>n\<close>, or \<open>n\<close> itself, through nodes of the tree.\<close>

definition reaches :: "'a compact_tree \<Rightarrow> CT_NODE_T \<Rightarrow> CT_NODE_T \<Rightarrow> bool" where
  "reaches tree a n = (case chain tree a n of Some (Inr p) \<Rightarrow> True | _ \<Rightarrow> False)"

text \<open>
  The same relation without the walk: some number of parent steps leads from \<open>n\<close> to
  \<open>a\<close>, and every node before that is a node of the tree.
\<close>

definition ancestor_or_self :: "'a compact_tree \<Rightarrow> CT_NODE_T \<Rightarrow> CT_NODE_T \<Rightarrow> bool" where
  "ancestor_or_self tree a n \<longleftrightarrow>
     (\<exists>k. (get_parent tree ^^ k) n = a \<and>
          (\<forall>j<k. unat ((get_parent tree ^^ j) n) < get_num_nodes tree))"

text \<open>The nodes strictly below \<open>a\<close> on the path from \<open>n\<close> to \<open>a\<close>, and their union over a guild.\<close>

definition path_list :: "'a compact_tree \<Rightarrow> CT_NODE_T \<Rightarrow> CT_NODE_T \<Rightarrow> CT_NODE_T list" where
  "path_list tree a n = (case chain tree a n of Some (Inr p) \<Rightarrow> p | _ \<Rightarrow> [])"

definition path_union :: "'a compact_tree \<Rightarrow> CT_NODE_T \<Rightarrow> CT_NODE_T list \<Rightarrow> CT_NODE_T set" where
  "path_union tree a leaf_nodes = (\<Union>n\<in>set leaf_nodes. set (path_list tree a n))"

text \<open>
  The guarantee of \<^verbatim>\<open>find_mrca\<close> in the specification: the returned node is an ancestor
  of (or equal to) every id of the set, and no descendant of the returned node has the
  same property.
\<close>

definition is_mrca :: "'a compact_tree \<Rightarrow> CT_NODE_T set \<Rightarrow> CT_NODE_T \<Rightarrow> bool" where
  "is_mrca tree leaf_ids m \<longleftrightarrow>
     (\<forall>l\<in>leaf_ids. reaches tree m l) \<and>
     (\<forall>d. d \<noteq> m \<and> reaches tree m d \<longrightarrow> (\<exists>l\<in>leaf_ids. \<not> reaches tree d l))"

subsection \<open>The marker as a set\<close>

text \<open>
  One step of a walk on the pair of the set of marked nodes and the running total, and the
  counterparts on the two vectors.
\<close>

definition visit :: "('a::plus) compact_tree \<Rightarrow> CT_NODE_T \<Rightarrow> CT_NODE_T set \<times> 'a \<Rightarrow> CT_NODE_T set \<times> 'a" where
  "visit tree n st =
     (if n \<notin> fst st then (insert n (fst st), snd st + get_edge_length tree n) else st)"

definition visit_uint8 ::
  "('a::plus) compact_tree \<Rightarrow> CT_NODE_T \<Rightarrow> 8 word list \<times> 'a \<Rightarrow> 8 word list \<times> 'a" where
  "visit_uint8 tree n st =
     (if fst st ! unat n = 0
      then ((fst st)[unat n := 1], snd st + get_edge_length tree n)
      else st)"

definition visit_vectorbool ::
  "('a::plus) compact_tree \<Rightarrow> CT_NODE_T \<Rightarrow> bool list \<times> 'a \<Rightarrow> bool list \<times> 'a" where
  "visit_vectorbool tree n st =
     (if \<not> fst st ! unat n
      then ((fst st)[unat n := True], snd st + get_edge_length tree n)
      else st)"

definition marked_uint8 :: "8 word list \<Rightarrow> CT_NODE_T set" where
  "marked_uint8 visited = {n. unat n < length visited \<and> visited ! unat n \<noteq> 0}"

definition marked_vectorbool :: "bool list \<Rightarrow> CT_NODE_T set" where
  "marked_vectorbool visited = {n. unat n < length visited \<and> visited ! unat n}"

text \<open>The nodes of a list that are not in \<open>V\<close>, each once, in the order of first occurrence.\<close>

fun new_nodes :: "'n set \<Rightarrow> 'n list \<Rightarrow> 'n list" where
  "new_nodes V [] = []"
| "new_nodes V (n # ns) = (if n \<in> V then new_nodes V ns else n # new_nodes (insert n V) ns)"

text \<open>A list without its repeated entries, first occurrences kept.\<close>

definition remove_repeats :: "'n list \<Rightarrow> 'n list" where
  "remove_repeats ns = new_nodes {} ns"

text \<open>
  The nodes of the paths of a guild, each once, in the order in which the walks first meet
  them.
\<close>

definition visit_order :: "'a compact_tree \<Rightarrow> CT_NODE_T \<Rightarrow> CT_NODE_T list \<Rightarrow> CT_NODE_T list" where
  "visit_order tree a leaf_nodes = remove_repeats (concat (map (path_list tree a) leaf_nodes))"

text \<open>
  The results of evaluating the guilds of a batch one by one, in order: the list of the
  values when every evaluation returns one, and otherwise the outcome of the first
  evaluation that does not.
\<close>

fun collect :: "(error + 'a) option list \<Rightarrow> (error + 'a list) option" where
  "collect [] = Some (Inr [])"
| "collect (None # rest) = None"
| "collect (Some (Inl e) # rest) = Some (Inl e)"
| "collect (Some (Inr v) # rest) = map_option (map_sum id ((#) v)) (collect rest)"

subsection \<open>The interchange layout\<close>

text \<open>
  The layout of the specification, little-endian: a header of \<open>u32 num_nodes\<close> and
  \<open>u32 num_leaves\<close>; then, for each node in the order of the node ids, \<open>u32\<close> parent
  index (\<open>0xFFFFFFFF\<close> for no parent), \<open>u32 num_children\<close>, the child indices as
  \<open>u32\<close>, \<open>u32 label_len\<close>, the bytes of the label, and the edge length as \<open>f32\<close>.
\<close>

definition le32 :: "32 word \<Rightarrow> 8 word list" where
  "le32 v = map (\<lambda>k. ucast (drop_bit (8 * k) v)) [0, 1, 2, 3]"

definition parent_of :: "'a compact_tree \<Rightarrow> CT_NODE_T \<Rightarrow> CT_NODE_T option" where
  "parent_of tree n = (if get_parent tree n = NULL_NODE then None else Some (get_parent tree n))"

definition parent_index :: "CT_NODE_T option \<Rightarrow> 32 word" where
  "parent_index p = (case p of None \<Rightarrow> 0xFFFFFFFF | Some q \<Rightarrow> q)"

definition layout_node :: "('a \<Rightarrow> 32 word) \<Rightarrow> 'a compact_tree \<Rightarrow> nat \<Rightarrow> 8 word list" where
  "layout_node f32_bits tree i =
     le32 (parent_index (parent_of tree (of_nat i)))
     @ le32 (of_nat (length (get_children tree (of_nat i))))
     @ concat (map le32 (get_children tree (of_nat i)))
     @ le32 (of_nat (length (get_label tree (of_nat i))))
     @ get_label tree (of_nat i)
     @ le32 (f32_bits (get_edge_length tree (of_nat i)))"

definition layout :: "('a \<Rightarrow> 32 word) \<Rightarrow> 'a compact_tree \<Rightarrow> 8 word list" where
  "layout f32_bits tree =
     le32 (of_nat (get_num_nodes tree))
     @ le32 (of_nat (get_num_leaves tree))
     @ concat (map (layout_node f32_bits tree) [0..<get_num_nodes tree])"

subsection \<open>Binary64 addition on whole numbers\<close>

text \<open>
  The doubles whose value is a natural number, named by that number, with the addition of
  IEEE-754 binary64 in the default rounding mode: the exact sum, rounded to the nearest
  number with a significand of 53 bits, ties to the even significand. \<open>ulp n\<close> is the
  distance between neighbouring doubles at \<open>n\<close>: 1 below \<open>2\<^sup>5\<^sup>3\<close>, doubling with each
  further bit. (Only numbers with at most 53 significant bits name a double; a sum of two
  of them is one again. The sums below stay far under the overflow threshold.)
\<close>

function ulp :: "nat \<Rightarrow> nat" where
  "ulp n = (if n < 2 ^ 53 then 1 else 2 * ulp (n div 2))"
  by pat_completeness auto
termination
  by (relation "measure id") auto

declare ulp.simps [simp del]

definition round_nearest_even :: "nat \<Rightarrow> nat" where
  "round_nearest_even n =
     (let u = ulp n; q = n div u; r = n mod u
      in if 2 * r < u \<or> (2 * r = u \<and> even q) then q * u else (q + 1) * u)"

datatype binary64 = Binary64 nat

instantiation binary64 :: "{zero,plus,ord}"
begin

definition zero_binary64 :: binary64 where
  "zero_binary64 = Binary64 0"

fun plus_binary64 :: "binary64 \<Rightarrow> binary64 \<Rightarrow> binary64" where
  "plus_binary64 (Binary64 x) (Binary64 y) = Binary64 (round_nearest_even (x + y))"

fun less_eq_binary64 :: "binary64 \<Rightarrow> binary64 \<Rightarrow> bool" where
  "less_eq_binary64 (Binary64 x) (Binary64 y) = (x \<le> y)"

fun less_binary64 :: "binary64 \<Rightarrow> binary64 \<Rightarrow> bool" where
  "less_binary64 (Binary64 x) (Binary64 y) = (x < y)"

instance ..

end

text \<open>
  The numbers that name a double are those that rounding leaves as they are; \<open>doubles\<close>
  is the set of the whole-number doubles.
\<close>

fun is_double :: "binary64 \<Rightarrow> bool" where
  "is_double (Binary64 n) = (round_nearest_even n = n)"

definition doubles :: "binary64 set" where
  "doubles = {d. is_double d}"

subsection \<open>Monotone addition\<close>

text \<open>
  What the comparison of two totals needs of the accumulator's addition, on a set \<open>D\<close>
  of values: \<open>D\<close> holds 0 and is closed under the addition; \<open>\<le>\<close> is reflexive and
  transitive on \<open>D\<close>; adding the same value of \<open>D\<close> to both sides keeps \<open>\<le>\<close>; and
  adding a value of \<open>D\<close> does not lower a total. The values of \<open>D\<close> are non-negative
  by the last condition. For IEEE-754 doubles \<open>D\<close> is the set of the non-negative values
  with \<open>+\<infinity>\<close>: rounding to nearest is monotone, and it leaves a double as it is.
\<close>

definition monotone_addition :: "('a::{zero,plus,ord}) set \<Rightarrow> bool" where
  "monotone_addition D \<longleftrightarrow>
     0 \<in> D \<and> (\<forall>a\<in>D. \<forall>c\<in>D. a + c \<in> D) \<and>
     (\<forall>a\<in>D. a \<le> a) \<and>
     (\<forall>a\<in>D. \<forall>b\<in>D. \<forall>c\<in>D. a \<le> b \<longrightarrow> b \<le> c \<longrightarrow> a \<le> c) \<and>
     (\<forall>a\<in>D. \<forall>b\<in>D. \<forall>c\<in>D. a \<le> b \<longrightarrow> a + c \<le> b + c) \<and>
     (\<forall>a\<in>D. \<forall>c\<in>D. a \<le> a + c)"

subsection \<open>Example trees\<close>

text \<open>
  Modelled from the spec: \<^verbatim>\<open>find_mrca\<close>, a method of \<^verbatim>\<open>compact_tree\<close>, whose header is
  not among the sources. It is the pairwise fold of the specification: start from one
  element of the set; for each remaining leaf take the deepest node common to the parent
  chains of the current node and of the leaf (record the ancestors of one side, walk the
  other side until a recorded ancestor is hit). A parent chain of a tree with
  \<open>num_nodes\<close> nodes has at most \<open>num_nodes\<close> entries, which bounds the walks. It gives
  the example trees below their \<open>find_mrca\<close>.
\<close>

fun ancestors :: "nat \<Rightarrow> (CT_NODE_T \<Rightarrow> CT_NODE_T) \<Rightarrow> CT_NODE_T \<Rightarrow> CT_NODE_T list" where
  "ancestors 0 parent n = []"
| "ancestors (Suc fuel) parent n =
     (if n = NULL_NODE then [] else n # ancestors fuel parent (parent n))"

definition pair_mrca :: "nat \<Rightarrow> (CT_NODE_T \<Rightarrow> CT_NODE_T) \<Rightarrow> CT_NODE_T \<Rightarrow> CT_NODE_T \<Rightarrow> CT_NODE_T" where
  "pair_mrca num_nodes parent a b =
     (case find (\<lambda>x. x \<in> set (ancestors num_nodes parent a)) (ancestors num_nodes parent b) of
        None \<Rightarrow> NULL_NODE
      | Some c \<Rightarrow> c)"

definition find_mrca_fold :: "nat \<Rightarrow> (CT_NODE_T \<Rightarrow> CT_NODE_T) \<Rightarrow> CT_NODE_T set \<Rightarrow> CT_NODE_T" where
  "find_mrca_fold num_nodes parent leaf_ids =
     (case sorted_list_of_set leaf_ids of
        [] \<Rightarrow> NULL_NODE
      | first # remaining \<Rightarrow> fold (\<lambda>l current. pair_mrca num_nodes parent current l) remaining first)"

text \<open>
  The tree of the concrete scenario: root \<open>R = 0\<close> with children \<open>A = 1\<close> and \<open>B = 4\<close>;
  \<open>A\<close> has the leaves \<open>X = 2\<close> and \<open>Y = 3\<close>. Edge lengths: \<open>A\<close> 2, \<open>B\<close> 3, \<open>X\<close> and
  \<open>Y\<close> 1. Labels are the ASCII letters.
\<close>

definition scenario_parent :: "CT_NODE_T \<Rightarrow> CT_NODE_T" where
  "scenario_parent n =
     (if n = 2 \<or> n = 3 then 1 else if n = 1 \<or> n = 4 then 0 else NULL_NODE)"

definition scenario_tree :: "real compact_tree" where
  "scenario_tree =
     \<lparr> get_num_nodes = 5,
       get_num_leaves = 3,
       get_parent = scenario_parent,
       get_children = (\<lambda>n. if n = 0 then [1, 4] else if n = 1 then [2, 3] else []),
       get_label = (\<lambda>n. if n = 0 then [0x52] else if n = 1 then [0x41] else if n = 2 then [0x58]
                         else if n = 3 then [0x59] else if n = 4 then [0x42] else []),
       get_edge_length = (\<lambda>n. if n = 1 then 2 else if n = 4 then 3
                               else if n = 2 \<or> n = 3 then 1 else 0),
       find_mrca = find_mrca_fold 5 scenario_parent \<rparr>"

text \<open>The same tree with the edge lengths as doubles.\<close>

definition scenario_tree_binary64 :: "binary64 compact_tree" where
  "scenario_tree_binary64 =
     \<lparr> get_num_nodes = 5,
       get_num_leaves = 3,
       get_parent = scenario_parent,
       get_children = get_children scenario_tree,
       get_label = get_label scenario_tree,
       get_edge_length = (\<lambda>n. if n = 1 then Binary64 2 else if n = 4 then Binary64 3
                               else if n = 2 \<or> n = 3 then Binary64 1 else Binary64 0),
       find_mrca = find_mrca_fold 5 scenario_parent \<rparr>"

text \<open>The binary32 patterns of the edge lengths of the scenario.\<close>

definition scenario_f32_bits :: "real \<Rightarrow> 32 word" where
  "scenario_f32_bits v =
     (if v = 1 then 0x3F800000 else if v = 2 then 0x40000000 else if v = 3 then 0x40400000 else 0)"

text \<open>
  A star: root \<open>0\<close> with the four leaves \<open>1\<close>, \<open>2\<close>, \<open>3\<close>, \<open>4\<close>, whose edge lengths
  \<open>2\<^sup>6\<^sup>0\<close>, \<open>100\<close>, \<open>100\<close> and \<open>1\<close> are all values of a \<^verbatim>\<open>float\<close>.
\<close>

definition star_parent :: "CT_NODE_T \<Rightarrow> CT_NODE_T" where
  "star_parent n = (if n = 1 \<or> n = 2 \<or> n = 3 \<or> n = 4 then 0 else NULL_NODE)"

definition star_tree :: "binary64 compact_tree" where
  "star_tree =
     \<lparr> get_num_nodes = 5,
       get_num_leaves = 4,
       get_parent = star_parent,
       get_children = (\<lambda>n. if n = 0 then [1, 2, 3, 4] else []),
       get_label = (\<lambda>n. if n = 1 then [0x57] else if n = 2 then [0x58] else if n = 3 then [0x59]
                         else if n = 4 then [0x5A] else []),
       get_edge_length = (\<lambda>n. if n = 1 then Binary64 (2 ^ 60) else if n = 2 \<or> n = 3 then Binary64 100
                               else if n = 4 then Binary64 1 else Binary64 0),
       find_mrca = find_mrca_fold 5 star_parent \<rparr>"

text \<open>
  A fork: root \<open>0\<close> with the inner node \<open>1\<close> and the leaf \<open>3\<close>; node \<open>1\<close> has the
  leaves \<open>2\<close> and \<open>4\<close>. Edge lengths: node \<open>1\<close> \<open>2\<^sup>6\<^sup>0\<close>, leaf \<open>2\<close> 1, leaves \<open>3\<close>
  and \<open>4\<close> 100, all values of a \<^verbatim>\<open>float\<close>.
\<close>

definition fork_parent :: "CT_NODE_T \<Rightarrow> CT_NODE_T" where
  "fork_parent n = (if n = 1 \<or> n = 3 then 0 else if n = 2 \<or> n = 4 then 1 else NULL_NODE)"

definition fork_tree :: "binary64 compact_tree" where
  "fork_tree =
     \<lparr> get_num_nodes = 5,
       get_num_leaves = 3,
       get_parent = fork_parent,
       get_children = (\<lambda>n. if n = 0 then [1, 3] else if n = 1 then [2, 4] else []),
       get_label = (\<lambda>n. if n = 2 then [0x58] else if n = 3 then [0x59] else if n = 4 then [0x5A]
                         else []),
       get_edge_length = (\<lambda>n. if n = 1 then Binary64 (2 ^ 60) else if n = 2 then Binary64 1
                               else if n = 3 \<or> n = 4 then Binary64 100 else Binary64 0),
       find_mrca = find_mrca_fold 5 fork_parent \<rparr>"

text \<open>A tree of a single node whose label has \<open>2\<^sup>3\<^sup>2\<close> bytes.\<close>

definition long_label :: "8 word list" where
  "long_label = replicate (2 ^ 32) 0x58"

definition long_label_tree :: "real compact_tree" where
  "long_label_tree =
     \<lparr> get_num_nodes = 1,
       get_num_leaves = 1,
       get_parent = (\<lambda>n. NULL_NODE),
       get_children = (\<lambda>n. []),
       get_label = (\<lambda>n. if n = 0 then long_label else []),
       get_edge_length = (\<lambda>n. 0),
       find_mrca = find_mrca_fold 1 (\<lambda>n. NULL_NODE) \<rparr>"

section \<open>Walks are folds over parent chains\<close>

lemma chain_self [simp]: "chain tree a a = Some (Inr [])"
  by (subst chain.simps) simp

lemma chain_out_of_range:
  "n \<noteq> a \<Longrightarrow> \<not> unat n < get_num_nodes tree \<Longrightarrow> chain tree a n = Some (Inl OutOfRange)"
  by (subst chain.simps) simp

lemma chain_step:
  "n \<noteq> a \<Longrightarrow> unat n < get_num_nodes tree \<Longrightarrow>
   chain tree a n = map_option (map_sum id ((#) n)) (chain tree a (get_parent tree n))"
  by (subst chain.simps) (cases "chain tree a (get_parent tree n)"; simp)

lemma length_visit_uint8: "length (fst (visit_uint8 tree n st)) = length (fst st)"
  by (simp add: visit_uint8_def)

lemma length_fold_visit_uint8: "length (fst (fold (visit_uint8 tree) p st)) = length (fst st)"
  by (induction p arbitrary: st) (simp_all add: length_visit_uint8)

lemma length_visit_vectorbool: "length (fst (visit_vectorbool tree n st)) = length (fst st)"
  by (simp add: visit_vectorbool_def)

lemma length_fold_visit_vectorbool:
  "length (fst (fold (visit_vectorbool tree) p st)) = length (fst st)"
  by (induction p arbitrary: st) (simp_all add: length_visit_vectorbool)

lemma walk_uint8_step:
  "current \<noteq> mrca \<Longrightarrow> unat current < length (fst st) \<Longrightarrow>
   walk_uint8 tree mrca st current =
   walk_uint8 tree mrca (visit_uint8 tree current st) (get_parent tree current)"
  by (subst walk_uint8.simps) (simp add: visit_uint8_def)

lemma walk_vectorbool_step:
  "current \<noteq> mrca \<Longrightarrow> unat current < length (fst st) \<Longrightarrow>
   walk_vectorbool tree mrca st current =
   walk_vectorbool tree mrca (visit_vectorbool tree current st) (get_parent tree current)"
  by (subst walk_vectorbool.simps) (simp add: visit_vectorbool_def)

lemma walk_original_step:
  "current \<noteq> mrca \<Longrightarrow> unat current < get_num_nodes tree \<Longrightarrow>
   walk_original tree mrca st current =
   walk_original tree mrca (visit tree current st) (get_parent tree current)"
  by (subst walk_original.simps) (simp add: visit_def)

text \<open>When the chain has an outcome, the walk has the matching one.\<close>

lemma chain_walk_uint8:
  assumes "chain tree mrca current = Some y"
  shows "\<forall>st. length (fst st) = get_num_nodes tree \<longrightarrow>
           walk_uint8 tree mrca st current =
           Some (map_sum id (\<lambda>p. fold (visit_uint8 tree) p st) y)"
proof (rule chain.raw_induct[where P = "\<lambda>tree mrca current y.
         \<forall>st. length (fst st) = get_num_nodes tree \<longrightarrow>
           walk_uint8 tree mrca st current =
           Some (map_sum id (\<lambda>p. fold (visit_uint8 tree) p st) y)", OF _ assms], goal_cases)
  case (1 chain' tree mrca current y)
  show ?case
  proof (intro allI impI)
    fix st :: "8 word list \<times> 'a"
    assume len: "length (fst st) = get_num_nodes tree"
    consider (stop) "current = mrca"
      | (out) "current \<noteq> mrca" "\<not> unat current < get_num_nodes tree"
      | (up) "current \<noteq> mrca" "unat current < get_num_nodes tree"
      by blast
    then show "walk_uint8 tree mrca st current =
               Some (map_sum id (\<lambda>p. fold (visit_uint8 tree) p st) y)"
    proof cases
      case stop
      with 1(2) show ?thesis by (auto simp: walk_uint8.simps)
    next
      case out
      with 1(2) len show ?thesis by (auto simp: walk_uint8.simps)
    next
      case up
      with 1(2) obtain y' where y': "chain' tree mrca (get_parent tree current) = Some y'"
        and y: "y = map_sum id ((#) current) y'"
        by (auto simp: bind_eq_Some_conv)
      have "walk_uint8 tree mrca st current =
            walk_uint8 tree mrca (visit_uint8 tree current st) (get_parent tree current)"
        using up len by (simp add: walk_uint8_step)
      also have "\<dots> = Some (map_sum id (\<lambda>p. fold (visit_uint8 tree) p
                                        (visit_uint8 tree current st)) y')"
        using 1(1)[OF y', rule_format, of "visit_uint8 tree current st"] len
        by (simp add: length_visit_uint8)
      also have "\<dots> = Some (map_sum id (\<lambda>p. fold (visit_uint8 tree) p st) y)"
        unfolding y by (cases y') simp_all
      finally show ?thesis .
    qed
  qed
qed

lemma chain_walk_vectorbool:
  assumes "chain tree mrca current = Some y"
  shows "\<forall>st. length (fst st) = get_num_nodes tree \<longrightarrow>
           walk_vectorbool tree mrca st current =
           Some (map_sum id (\<lambda>p. fold (visit_vectorbool tree) p st) y)"
proof (rule chain.raw_induct[where P = "\<lambda>tree mrca current y.
         \<forall>st. length (fst st) = get_num_nodes tree \<longrightarrow>
           walk_vectorbool tree mrca st current =
           Some (map_sum id (\<lambda>p. fold (visit_vectorbool tree) p st) y)", OF _ assms], goal_cases)
  case (1 chain' tree mrca current y)
  show ?case
  proof (intro allI impI)
    fix st :: "bool list \<times> 'a"
    assume len: "length (fst st) = get_num_nodes tree"
    consider (stop) "current = mrca"
      | (out) "current \<noteq> mrca" "\<not> unat current < get_num_nodes tree"
      | (up) "current \<noteq> mrca" "unat current < get_num_nodes tree"
      by blast
    then show "walk_vectorbool tree mrca st current =
               Some (map_sum id (\<lambda>p. fold (visit_vectorbool tree) p st) y)"
    proof cases
      case stop
      with 1(2) show ?thesis by (auto simp: walk_vectorbool.simps)
    next
      case out
      with 1(2) len show ?thesis by (auto simp: walk_vectorbool.simps)
    next
      case up
      with 1(2) obtain y' where y': "chain' tree mrca (get_parent tree current) = Some y'"
        and y: "y = map_sum id ((#) current) y'"
        by (auto simp: bind_eq_Some_conv)
      have "walk_vectorbool tree mrca st current =
            walk_vectorbool tree mrca (visit_vectorbool tree current st) (get_parent tree current)"
        using up len by (simp add: walk_vectorbool_step)
      also have "\<dots> = Some (map_sum id (\<lambda>p. fold (visit_vectorbool tree) p
                                        (visit_vectorbool tree current st)) y')"
        using 1(1)[OF y', rule_format, of "visit_vectorbool tree current st"] len
        by (simp add: length_visit_vectorbool)
      also have "\<dots> = Some (map_sum id (\<lambda>p. fold (visit_vectorbool tree) p st) y)"
        unfolding y by (cases y') simp_all
      finally show ?thesis .
    qed
  qed
qed

lemma chain_walk_original:
  assumes "chain tree mrca current = Some y"
  shows "\<forall>st. walk_original tree mrca st current =
           Some (map_sum id (\<lambda>p. fold (visit tree) p st) y)"
proof (rule chain.raw_induct[where P = "\<lambda>tree mrca current y.
         \<forall>st. walk_original tree mrca st current =
           Some (map_sum id (\<lambda>p. fold (visit tree) p st) y)", OF _ assms], goal_cases)
  case (1 chain' tree mrca current y)
  show ?case
  proof
    fix st :: "CT_NODE_T set \<times> 'a"
    consider (stop) "current = mrca"
      | (out) "current \<noteq> mrca" "\<not> unat current < get_num_nodes tree"
      | (up) "current \<noteq> mrca" "unat current < get_num_nodes tree"
      by blast
    then show "walk_original tree mrca st current =
               Some (map_sum id (\<lambda>p. fold (visit tree) p st) y)"
    proof cases
      case stop
      with 1(2) show ?thesis by (auto simp: walk_original.simps)
    next
      case out
      with 1(2) show ?thesis by (auto simp: walk_original.simps)
    next
      case up
      with 1(2) obtain y' where y': "chain' tree mrca (get_parent tree current) = Some y'"
        and y: "y = map_sum id ((#) current) y'"
        by (auto simp: bind_eq_Some_conv)
      have "walk_original tree mrca st current =
            walk_original tree mrca (visit tree current st) (get_parent tree current)"
        using up by (simp add: walk_original_step)
      also have "\<dots> = Some (map_sum id (\<lambda>p. fold (visit tree) p (visit tree current st)) y')"
        using 1(1)[OF y', rule_format, of "visit tree current st"] by simp
      also have "\<dots> = Some (map_sum id (\<lambda>p. fold (visit tree) p st) y)"
        unfolding y by (cases y') simp_all
      finally show ?thesis .
    qed
  qed
qed

text \<open>When the walk has an outcome, so has the chain.\<close>

lemma walk_uint8_chain:
  assumes "walk_uint8 tree mrca st current = Some z"
  shows "length (fst st) = get_num_nodes tree \<longrightarrow> chain tree mrca current \<noteq> None"
proof (rule walk_uint8.raw_induct[where P = "\<lambda>tree mrca st current z.
         length (fst st) = get_num_nodes tree \<longrightarrow> chain tree mrca current \<noteq> None",
       OF _ assms], goal_cases)
  case (1 walk' tree mrca st current z)
  show ?case
  proof
    assume len: "length (fst st) = get_num_nodes tree"
    show "chain tree mrca current \<noteq> None"
    proof (cases "current \<noteq> mrca \<and> unat current < get_num_nodes tree")
      case False
      then show ?thesis by (cases "current = mrca") (auto simp: chain_out_of_range)
    next
      case True
      with 1(2) len
      have "walk' tree mrca (visit_uint8 tree current st) (get_parent tree current) = Some z"
        by (simp add: visit_uint8_def)
      from 1(1)[OF this] len have "chain tree mrca (get_parent tree current) \<noteq> None"
        by (simp add: length_visit_uint8)
      with True show ?thesis by (auto simp: chain_step)
    qed
  qed
qed

lemma walk_vectorbool_chain:
  assumes "walk_vectorbool tree mrca st current = Some z"
  shows "length (fst st) = get_num_nodes tree \<longrightarrow> chain tree mrca current \<noteq> None"
proof (rule walk_vectorbool.raw_induct[where P = "\<lambda>tree mrca st current z.
         length (fst st) = get_num_nodes tree \<longrightarrow> chain tree mrca current \<noteq> None",
       OF _ assms], goal_cases)
  case (1 walk' tree mrca st current z)
  show ?case
  proof
    assume len: "length (fst st) = get_num_nodes tree"
    show "chain tree mrca current \<noteq> None"
    proof (cases "current \<noteq> mrca \<and> unat current < get_num_nodes tree")
      case False
      then show ?thesis by (cases "current = mrca") (auto simp: chain_out_of_range)
    next
      case True
      with 1(2) len
      have "walk' tree mrca (visit_vectorbool tree current st) (get_parent tree current) = Some z"
        by (simp add: visit_vectorbool_def)
      from 1(1)[OF this] len have "chain tree mrca (get_parent tree current) \<noteq> None"
        by (simp add: length_visit_vectorbool)
      with True show ?thesis by (auto simp: chain_step)
    qed
  qed
qed

lemma walk_original_chain:
  assumes "walk_original tree mrca st current = Some z"
  shows "chain tree mrca current \<noteq> None"
proof (rule walk_original.raw_induct[where P = "\<lambda>tree mrca st current z.
         chain tree mrca current \<noteq> None", OF _ assms], goal_cases)
  case (1 walk' tree mrca st current z)
  show ?case
  proof (cases "current \<noteq> mrca \<and> unat current < get_num_nodes tree")
    case False
    then show ?thesis by (cases "current = mrca") (auto simp: chain_out_of_range)
  next
    case True
    with 1(2)
    have "walk' tree mrca (visit tree current st) (get_parent tree current) = Some z"
      by (simp add: visit_def)
    from 1(1)[OF this] have "chain tree mrca (get_parent tree current) \<noteq> None" .
    with True show ?thesis by (auto simp: chain_step)
  qed
qed

lemma walk_uint8_eq:
  assumes "length (fst st) = get_num_nodes tree"
  shows "walk_uint8 tree mrca st current =
         map_option (map_sum id (\<lambda>p. fold (visit_uint8 tree) p st)) (chain tree mrca current)"
proof (cases "chain tree mrca current")
  case None
  with walk_uint8_chain[of tree mrca st current] assms show ?thesis
    by (cases "walk_uint8 tree mrca st current") auto
next
  case (Some y)
  with chain_walk_uint8[OF Some, rule_format, OF assms] show ?thesis by simp
qed

lemma walk_vectorbool_eq:
  assumes "length (fst st) = get_num_nodes tree"
  shows "walk_vectorbool tree mrca st current =
         map_option (map_sum id (\<lambda>p. fold (visit_vectorbool tree) p st)) (chain tree mrca current)"
proof (cases "chain tree mrca current")
  case None
  with walk_vectorbool_chain[of tree mrca st current] assms show ?thesis
    by (cases "walk_vectorbool tree mrca st current") auto
next
  case (Some y)
  with chain_walk_vectorbool[OF Some, rule_format, OF assms] show ?thesis by simp
qed

lemma walk_original_eq:
  "walk_original tree mrca st current =
   map_option (map_sum id (\<lambda>p. fold (visit tree) p st)) (chain tree mrca current)"
proof (cases "chain tree mrca current")
  case None
  with walk_original_chain[of tree mrca st current] show ?thesis
    by (cases "walk_original tree mrca st current") auto
next
  case (Some y)
  with chain_walk_original[OF Some, rule_format, of st] show ?thesis by simp
qed

text \<open>The loop over the leaves is the fold over the chains laid end to end.\<close>

lemma leaves_uint8_eq:
  "length (fst st) = get_num_nodes tree \<Longrightarrow>
   leaves_uint8 tree mrca st leaf_nodes =
   map_option (map_sum id (\<lambda>p. fold (visit_uint8 tree) p st)) (chains tree mrca leaf_nodes)"
proof (induction leaf_nodes arbitrary: st)
  case Nil
  then show ?case by simp
next
  case (Cons leaf rest)
  show ?case
  proof (cases "chain tree mrca leaf")
    case None
    then show ?thesis using Cons.prems by (simp add: walk_uint8_eq)
  next
    case (Some y)
    show ?thesis
    proof (cases y)
      case (Inl e)
      with Some show ?thesis using Cons.prems by (simp add: walk_uint8_eq)
    next
      case (Inr p)
      have len: "length (fst (fold (visit_uint8 tree) p st)) = get_num_nodes tree"
        using Cons.prems by (simp add: length_fold_visit_uint8)
      show ?thesis
        using Some Inr Cons.prems Cons.IH[OF len]
        by (cases "chains tree mrca rest")
           (auto simp: walk_uint8_eq option.map_comp sum.map_comp comp_def split: sum.splits)
    qed
  qed
qed

lemma leaves_vectorbool_eq:
  "length (fst st) = get_num_nodes tree \<Longrightarrow>
   leaves_vectorbool tree mrca st leaf_nodes =
   map_option (map_sum id (\<lambda>p. fold (visit_vectorbool tree) p st)) (chains tree mrca leaf_nodes)"
proof (induction leaf_nodes arbitrary: st)
  case Nil
  then show ?case by simp
next
  case (Cons leaf rest)
  show ?case
  proof (cases "chain tree mrca leaf")
    case None
    then show ?thesis using Cons.prems by (simp add: walk_vectorbool_eq)
  next
    case (Some y)
    show ?thesis
    proof (cases y)
      case (Inl e)
      with Some show ?thesis using Cons.prems by (simp add: walk_vectorbool_eq)
    next
      case (Inr p)
      have len: "length (fst (fold (visit_vectorbool tree) p st)) = get_num_nodes tree"
        using Cons.prems by (simp add: length_fold_visit_vectorbool)
      show ?thesis
        using Some Inr Cons.prems Cons.IH[OF len]
        by (cases "chains tree mrca rest")
           (auto simp: walk_vectorbool_eq option.map_comp sum.map_comp comp_def split: sum.splits)
    qed
  qed
qed

lemma leaves_original_eq:
  "leaves_original tree mrca st leaf_nodes =
   map_option (map_sum id (\<lambda>p. fold (visit tree) p st)) (chains tree mrca leaf_nodes)"
proof (induction leaf_nodes arbitrary: st)
  case Nil
  then show ?case by simp
next
  case (Cons leaf rest)
  show ?case
  proof (cases "chain tree mrca leaf")
    case None
    then show ?thesis by (simp add: walk_original_eq)
  next
    case (Some y)
    show ?thesis
    proof (cases y)
      case (Inl e)
      with Some show ?thesis by (simp add: walk_original_eq)
    next
      case (Inr p)
      show ?thesis
        using Some Inr Cons.IH[of "fold (visit tree) p st"]
        by (cases "chains tree mrca rest")
           (auto simp: walk_original_eq option.map_comp sum.map_comp comp_def split: sum.splits)
    qed
  qed
qed

section \<open>The vectors mark the same nodes as the set\<close>

lemma map_sum_Inr_iff: "map_sum g f z = Inr v \<longleftrightarrow> (\<exists>u. z = Inr u \<and> v = f u)"
  by (cases z) auto

lemma map_sum_Inl_iff: "map_sum g f z = Inl e \<longleftrightarrow> (\<exists>d. z = Inl d \<and> e = g d)"
  by (cases z) auto

lemma map_result_Inr_iff:
  "map_option (map_sum g f) c = Some (Inr v) \<longleftrightarrow> (\<exists>u. c = Some (Inr u) \<and> v = f u)"
  by (cases c) (auto simp: map_sum_Inr_iff)

lemma chain_Nil: "chain tree a n = Some (Inr []) \<Longrightarrow> n = a"
proof (rule ccontr)
  assume c: "chain tree a n = Some (Inr [])" and ne: "n \<noteq> a"
  show False
  proof (cases "unat n < get_num_nodes tree")
    case True
    with c ne show False by (simp add: chain_step map_sum_Inr_iff)
  next
    case False
    with c ne show False by (simp add: chain_out_of_range)
  qed
qed

lemma chain_Cons:
  assumes "chain tree a n = Some (Inr (x # p))"
  shows "n \<noteq> a \<and> unat n < get_num_nodes tree \<and> x = n \<and>
         chain tree a (get_parent tree n) = Some (Inr p)"
proof -
  have ne: "n \<noteq> a"
    using assms by auto
  have inr: "unat n < get_num_nodes tree"
    using assms ne by (cases "unat n < get_num_nodes tree") (auto simp: chain_out_of_range)
  from assms ne inr show ?thesis
    by (auto simp: chain_step map_sum_Inr_iff)
qed

lemma chain_in_range:
  "chain tree a n = Some (Inr p) \<Longrightarrow> \<forall>x\<in>set p. unat x < get_num_nodes tree"
proof (induction p arbitrary: n)
  case Nil
  then show ?case by simp
next
  case (Cons x p)
  from chain_Cons[OF Cons.prems] Cons.IH show ?case by auto
qed

lemma chains_Cons_Inr:
  "chains tree a (leaf # rest) = Some (Inr p) \<longleftrightarrow>
   (\<exists>q r. chain tree a leaf = Some (Inr q) \<and> chains tree a rest = Some (Inr r) \<and> p = q @ r)"
  by (cases "chain tree a leaf"; cases "the (chain tree a leaf)")
     (auto simp: map_sum_Inr_iff)

lemma chains_in_range:
  "chains tree a leaf_nodes = Some (Inr p) \<Longrightarrow> \<forall>x\<in>set p. unat x < get_num_nodes tree"
proof (induction leaf_nodes arbitrary: p)
  case Nil
  then show ?case by simp
next
  case (Cons leaf rest)
  from chains_Cons_Inr[THEN iffD1, OF Cons.prems]
  obtain q r where q: "chain tree a leaf = Some (Inr q)"
    and r: "chains tree a rest = Some (Inr r)" and p: "p = q @ r"
    by blast
  with chain_in_range[OF q] Cons.IH[OF r] show ?case by auto
qed

lemma marked_uint8_replicate [simp]: "marked_uint8 (replicate k 0) = {}"
  by (auto simp: marked_uint8_def)

lemma marked_vectorbool_replicate [simp]: "marked_vectorbool (replicate k False) = {}"
  by (auto simp: marked_vectorbool_def)

lemma marked_uint8_update:
  "unat n < length vs \<Longrightarrow> marked_uint8 (vs[unat n := 1]) = insert n (marked_uint8 vs)"
  by (auto simp: marked_uint8_def nth_list_update word_unat_eq_iff)

lemma marked_vectorbool_update:
  "unat n < length vs \<Longrightarrow> marked_vectorbool (vs[unat n := True]) = insert n (marked_vectorbool vs)"
  by (auto simp: marked_vectorbool_def nth_list_update word_unat_eq_iff)

lemma visit_uint8_visit:
  "unat n < length (fst st) \<Longrightarrow>
   (marked_uint8 (fst (visit_uint8 tree n st)), snd (visit_uint8 tree n st)) =
   visit tree n (marked_uint8 (fst st), snd st)"
  by (auto simp: visit_uint8_def visit_def marked_uint8_update) (auto simp: marked_uint8_def)

lemma visit_vectorbool_visit:
  "unat n < length (fst st) \<Longrightarrow>
   (marked_vectorbool (fst (visit_vectorbool tree n st)), snd (visit_vectorbool tree n st)) =
   visit tree n (marked_vectorbool (fst st), snd st)"
  by (auto simp: visit_vectorbool_def visit_def marked_vectorbool_update)
     (auto simp: marked_vectorbool_def)

lemma fold_visit_uint8_visit:
  "\<forall>x\<in>set p. unat x < length (fst st) \<Longrightarrow>
   (marked_uint8 (fst (fold (visit_uint8 tree) p st)), snd (fold (visit_uint8 tree) p st)) =
   fold (visit tree) p (marked_uint8 (fst st), snd st)"
proof (induction p arbitrary: st)
  case Nil
  then show ?case by simp
next
  case (Cons n p)
  have "\<forall>x\<in>set p. unat x < length (fst (visit_uint8 tree n st))"
    using Cons.prems by (simp add: length_visit_uint8)
  from Cons.IH[OF this] Cons.prems show ?case
    by (simp add: visit_uint8_visit)
qed

lemma fold_visit_vectorbool_visit:
  "\<forall>x\<in>set p. unat x < length (fst st) \<Longrightarrow>
   (marked_vectorbool (fst (fold (visit_vectorbool tree) p st)),
    snd (fold (visit_vectorbool tree) p st)) =
   fold (visit tree) p (marked_vectorbool (fst st), snd st)"
proof (induction p arbitrary: st)
  case Nil
  then show ?case by simp
next
  case (Cons n p)
  have "\<forall>x\<in>set p. unat x < length (fst (visit_vectorbool tree n st))"
    using Cons.prems by (simp add: length_visit_vectorbool)
  from Cons.IH[OF this] Cons.prems show ?case
    by (simp add: visit_vectorbool_visit)
qed

text \<open>
  The value of a guild of two or more leaves, for each of the four functions: the total of
  the fold, from the empty marker and zero, over the chains of the leaves.
\<close>

lemma total_uint8:
  assumes "chains tree mrca leaf_nodes = Some (Inr p)"
  shows "snd (fold (visit_uint8 tree) p (replicate (get_num_nodes tree) 0, tot)) =
         snd (fold (visit tree) p ({}, tot))"
proof -
  have "\<forall>x\<in>set p. unat x < length (fst (replicate (get_num_nodes tree) (0 :: 8 word), tot))"
    using chains_in_range[OF assms] by simp
  from fold_visit_uint8_visit[OF this, of tree] show ?thesis
    by (metis fst_conv marked_uint8_replicate snd_conv)
qed

lemma total_vectorbool:
  assumes "chains tree mrca leaf_nodes = Some (Inr p)"
  shows "snd (fold (visit_vectorbool tree) p (replicate (get_num_nodes tree) False, tot)) =
         snd (fold (visit tree) p ({}, tot))"
proof -
  have "\<forall>x\<in>set p. unat x < length (fst (replicate (get_num_nodes tree) False, tot))"
    using chains_in_range[OF assms] by simp
  from fold_visit_vectorbool_visit[OF this, of tree] show ?thesis
    by (metis fst_conv marked_vectorbool_replicate snd_conv)
qed

lemma leaves_uint8_total:
  "map_option (map_sum id snd)
     (leaves_uint8 tree mrca (replicate (get_num_nodes tree) 0, tot) leaf_nodes) =
   map_option (map_sum id (\<lambda>p. snd (fold (visit tree) p ({}, tot)))) (chains tree mrca leaf_nodes)"
proof (cases "chains tree mrca leaf_nodes")
  case None
  then show ?thesis by (simp add: leaves_uint8_eq)
next
  case (Some y)
  then show ?thesis
    by (cases y) (simp_all add: leaves_uint8_eq total_uint8)
qed

lemma leaves_vectorbool_total:
  "map_option (map_sum id snd)
     (leaves_vectorbool tree mrca (replicate (get_num_nodes tree) False, tot) leaf_nodes) =
   map_option (map_sum id (\<lambda>p. snd (fold (visit tree) p ({}, tot)))) (chains tree mrca leaf_nodes)"
proof (cases "chains tree mrca leaf_nodes")
  case None
  then show ?thesis by (simp add: leaves_vectorbool_eq)
next
  case (Some y)
  then show ?thesis
    by (cases y) (simp_all add: leaves_vectorbool_eq total_vectorbool)
qed

lemma leaves_original_total:
  "map_option (map_sum id snd) (leaves_original tree mrca ({}, tot) leaf_nodes) =
   map_option (map_sum id (\<lambda>p. snd (fold (visit tree) p ({}, tot)))) (chains tree mrca leaf_nodes)"
proof (cases "chains tree mrca leaf_nodes")
  case None
  then show ?thesis by (simp add: leaves_original_eq)
next
  case (Some y)
  then show ?thesis
    by (cases y) (simp_all add: leaves_original_eq)
qed

lemma optimized_short:
  "length leaf_nodes < 2 \<Longrightarrow> calculate_faiths_pd_optimized tree leaf_nodes = Some (Inr 0)"
  by (cases leaf_nodes) (auto simp: calculate_faiths_pd_optimized_def)

lemma optimized_eq:
  "2 \<le> length leaf_nodes \<Longrightarrow>
   calculate_faiths_pd_optimized tree leaf_nodes =
   map_option (map_sum id (\<lambda>p. snd (fold (visit tree) p ({}, 0))))
     (chains tree (find_mrca tree (set leaf_nodes)) leaf_nodes)"
  unfolding calculate_faiths_pd_optimized_def Let_def
  by (simp add: leaves_uint8_total)

lemma vectoruint8_eq:
  "2 \<le> length leaf_nodes \<Longrightarrow>
   calculate_faiths_pd_vectoruint8 tree leaf_nodes =
   map_option (map_sum id (\<lambda>p. snd (fold (visit tree) p ({}, 0))))
     (chains tree (find_mrca tree (set leaf_nodes)) leaf_nodes)"
  unfolding calculate_faiths_pd_vectoruint8_def Let_def
  by (simp add: leaves_uint8_total)

lemma vectorbool_eq:
  "2 \<le> length leaf_nodes \<Longrightarrow>
   calculate_faiths_pd_vectorbool tree leaf_nodes =
   map_option (map_sum id (\<lambda>p. snd (fold (visit tree) p ({}, 0))))
     (chains tree (find_mrca tree (set leaf_nodes)) leaf_nodes)"
  unfolding calculate_faiths_pd_vectorbool_def Let_def
  by (simp add: leaves_vectorbool_total)

lemma original_eq:
  "2 \<le> length leaf_nodes \<Longrightarrow>
   calculate_faiths_pd_original tree leaf_nodes =
   map_option (map_sum id (\<lambda>p. snd (fold (visit tree) p ({}, 0))))
     (chains tree (find_mrca tree (set leaf_nodes)) leaf_nodes)"
  unfolding calculate_faiths_pd_original_def Let_def
  by (simp add: leaves_original_total)

lemma calculate_faiths_pd_eq_original:
  "calculate_faiths_pd tree leaf_nodes = calculate_faiths_pd_original tree leaf_nodes"
  by (cases leaf_nodes; cases "tl leaf_nodes")
     (simp_all add: calculate_faiths_pd_def calculate_faiths_pd_original_def)

lemma variants_short:
  assumes "length leaf_nodes < 2"
  shows "calculate_faiths_pd_original tree leaf_nodes = Some (Inr 0)"
    and "calculate_faiths_pd_vectorbool tree leaf_nodes = Some (Inr 0)"
    and "calculate_faiths_pd_vectoruint8 tree leaf_nodes = Some (Inr 0)"
  using assms
  by (simp_all add: calculate_faiths_pd_original_def calculate_faiths_pd_vectorbool_def
        calculate_faiths_pd_vectoruint8_def)

section \<open>Each node of the chains is counted once\<close>

lemma set_new_nodes: "set (new_nodes V ns) = set ns - V"
  by (induction ns arbitrary: V) auto

lemma distinct_new_nodes: "distinct (new_nodes V ns)"
  by (induction ns arbitrary: V) (auto simp: set_new_nodes)

lemma fold_visit:
  "fold (visit tree) p (V, tot) =
   (V \<union> set p, foldl (+) tot (map (get_edge_length tree) (new_nodes V p)))"
  by (induction p arbitrary: V tot) (auto simp: visit_def)

lemma fold_visit_marked: "set p \<subseteq> fst st \<Longrightarrow> fold (visit tree) p st = st"
  by (induction p arbitrary: st) (auto simp: visit_def)

lemma fst_fold_visit: "fst (fold (visit tree) p st) = fst st \<union> set p"
  by (cases st) (simp add: fold_visit)

lemma foldl_plus_sum_list:
  fixes xs :: "'a::monoid_add list"
  shows "foldl (+) a xs = a + sum_list xs"
  by (induction xs arbitrary: a) (simp_all add: add.assoc)

lemma total_sum:
  fixes tree :: "('a::comm_monoid_add) compact_tree"
  shows "snd (fold (visit tree) p ({}, 0)) = sum (get_edge_length tree) (set p)"
proof -
  have "snd (fold (visit tree) p ({}, 0)) = sum_list (map (get_edge_length tree) (new_nodes {} p))"
    by (simp add: fold_visit foldl_plus_sum_list)
  also have "\<dots> = sum (get_edge_length tree) (set (new_nodes {} p))"
    by (rule sum_list_distinct_conv_sum_set) (rule distinct_new_nodes)
  finally show ?thesis by (simp add: set_new_nodes)
qed

section \<open>Guilds whose leaves all reach the MRCA\<close>

lemma reaches_iff: "reaches tree a n \<longleftrightarrow> (\<exists>p. chain tree a n = Some (Inr p))"
  by (auto simp: reaches_def split: option.splits sum.splits)

lemma reaches_path_list: "reaches tree a n \<Longrightarrow> chain tree a n = Some (Inr (path_list tree a n))"
  by (auto simp: reaches_iff path_list_def)

lemma chains_reaches:
  "\<forall>l\<in>set leaf_nodes. reaches tree a l \<Longrightarrow>
   chains tree a leaf_nodes = Some (Inr (concat (map (path_list tree a) leaf_nodes)))"
  by (induction leaf_nodes) (simp_all add: reaches_path_list)

lemma chains_Inr_reaches:
  "chains tree a leaf_nodes = Some (Inr p) \<Longrightarrow> \<forall>l\<in>set leaf_nodes. reaches tree a l"
proof (induction leaf_nodes arbitrary: p)
  case Nil
  then show ?case by simp
next
  case (Cons leaf rest)
  from chains_Cons_Inr[THEN iffD1, OF Cons.prems]
  obtain q r where "chain tree a leaf = Some (Inr q)" "chains tree a rest = Some (Inr r)"
    by blast
  with Cons.IH show ?case by (auto simp: reaches_iff)
qed

lemma set_visit_order: "set (visit_order tree a leaf_nodes) = path_union tree a leaf_nodes"
  by (simp add: visit_order_def remove_repeats_def set_new_nodes path_union_def)

lemma distinct_visit_order: "distinct (visit_order tree a leaf_nodes)"
  by (simp add: visit_order_def remove_repeats_def distinct_new_nodes)

lemma optimized_visit_order:
  assumes "2 \<le> length leaf_nodes"
    and "\<forall>l\<in>set leaf_nodes. reaches tree (find_mrca tree (set leaf_nodes)) l"
  shows "calculate_faiths_pd_optimized tree leaf_nodes =
         Some (Inr (foldl (+) 0 (map (get_edge_length tree)
                      (visit_order tree (find_mrca tree (set leaf_nodes)) leaf_nodes))))"
  by (simp add: optimized_eq[OF assms(1)] chains_reaches[OF assms(2)] fold_visit
        visit_order_def remove_repeats_def)

lemma optimized_sum:
  fixes tree :: "('a::comm_monoid_add) compact_tree"
  assumes "2 \<le> length leaf_nodes"
    and "\<forall>l\<in>set leaf_nodes. reaches tree (find_mrca tree (set leaf_nodes)) l"
  shows "calculate_faiths_pd_optimized tree leaf_nodes =
         Some (Inr (\<Sum>n\<in>path_union tree (find_mrca tree (set leaf_nodes)) leaf_nodes.
                      get_edge_length tree n))"
  by (simp add: optimized_eq[OF assms(1)] chains_reaches[OF assms(2)] total_sum path_union_def)

lemma optimized_returns_iff:
  assumes "2 \<le> length leaf_nodes"
  shows "(\<exists>r. calculate_faiths_pd_optimized tree leaf_nodes = Some (Inr r)) \<longleftrightarrow>
         (\<forall>l\<in>set leaf_nodes. reaches tree (find_mrca tree (set leaf_nodes)) l)"
proof
  assume "\<exists>r. calculate_faiths_pd_optimized tree leaf_nodes = Some (Inr r)"
  then obtain p where "chains tree (find_mrca tree (set leaf_nodes)) leaf_nodes = Some (Inr p)"
    by (auto simp: optimized_eq[OF assms] map_sum_Inr_iff)
  then show "\<forall>l\<in>set leaf_nodes. reaches tree (find_mrca tree (set leaf_nodes)) l"
    by (rule chains_Inr_reaches)
next
  assume "\<forall>l\<in>set leaf_nodes. reaches tree (find_mrca tree (set leaf_nodes)) l"
  from optimized_visit_order[OF assms this] show
    "\<exists>r. calculate_faiths_pd_optimized tree leaf_nodes = Some (Inr r)"
    by blast
qed

text \<open>Evaluation of the example trees.\<close>

lemma ancestors_numeral:
  "ancestors (numeral k) parent n =
   (if n = NULL_NODE then [] else n # ancestors (pred_numeral k) parent (parent n))"
  by (simp add: numeral_eq_Suc)

lemma sorted_list_of_small_sets:
  "sorted_list_of_set {2, 3 :: 32 word} = [2, 3]"
  "sorted_list_of_set {2, 4 :: 32 word} = [2, 4]"
  "sorted_list_of_set {1, 2, 3 :: 32 word} = [1, 2, 3]"
  "sorted_list_of_set {1, 2, 3, 4 :: 32 word} = [1, 2, 3, 4]"
  by (simp_all add: sorted_list_of_set_insert_remove)

lemma scenario_ancestors:
  "ancestors 5 scenario_parent 0 = [0]"
  "ancestors 5 scenario_parent 1 = [1, 0]"
  "ancestors 5 scenario_parent 2 = [2, 1, 0]"
  "ancestors 5 scenario_parent 3 = [3, 1, 0]"
  "ancestors 5 scenario_parent 4 = [4, 0]"
  by (simp_all add: scenario_parent_def NULL_NODE_def ancestors_numeral)

lemma scenario_mrca:
  "find_mrca_fold 5 scenario_parent {2, 3} = 1"
  "find_mrca_fold 5 scenario_parent {2, 4} = 0"
  by (simp_all add: find_mrca_fold_def sorted_list_of_small_sets pair_mrca_def scenario_ancestors)

lemma star_ancestors:
  "ancestors 5 star_parent 0 = [0]"
  "ancestors 5 star_parent 1 = [1, 0]"
  "ancestors 5 star_parent 2 = [2, 0]"
  "ancestors 5 star_parent 3 = [3, 0]"
  "ancestors 5 star_parent 4 = [4, 0]"
  by (simp_all add: star_parent_def NULL_NODE_def ancestors_numeral)

lemma star_mrca:
  "find_mrca_fold 5 star_parent {1, 2, 3} = 0"
  "find_mrca_fold 5 star_parent {1, 2, 3, 4} = 0"
  by (simp_all add: find_mrca_fold_def sorted_list_of_small_sets pair_mrca_def star_ancestors)

lemma scenario_chains:
  "chain scenario_tree 1 2 = Some (Inr [2])"
  "chain scenario_tree 1 3 = Some (Inr [3])"
  "chain scenario_tree 0 2 = Some (Inr [2, 1])"
  "chain scenario_tree 0 4 = Some (Inr [4])"
  by (simp_all add: chain.simps scenario_tree_def scenario_parent_def)

lemma scenario_reaches:
  "reaches scenario_tree 1 2" "reaches scenario_tree 1 3"
  "reaches scenario_tree 0 2" "reaches scenario_tree 0 4"
  by (simp_all add: reaches_def scenario_chains)

lemma scenario_find_mrca:
  "find_mrca scenario_tree {2, 3} = 1" "find_mrca scenario_tree {2, 4} = 0"
  by (simp_all add: scenario_tree_def scenario_mrca)

text \<open>
  C1. For a guild of at least two leaves, each of which has the node returned by
  \<open>find_mrca\<close> as an ancestor (or is that node), \<open>calculate_faiths_pd_optimized\<close>
  returns the edge lengths of the nodes on the union of the leaf-to-MRCA paths, added up
  from zero in the order of first visit: the list \<open>visit_order\<close> has no repetition and
  its elements are exactly the nodes strictly below the MRCA on some leaf's path, so every
  edge enters the total exactly once however many paths pass through it. (With exact
  addition this is the sum over that set, lemma \<open>optimized_sum\<close>.)
\<close>

theorem faiths_pd_counts_each_edge_once:
  assumes "2 \<le> length leaf_nodes"
    and "\<forall>l\<in>set leaf_nodes. reaches tree (find_mrca tree (set leaf_nodes)) l"
  shows "calculate_faiths_pd_optimized tree leaf_nodes =
           Some (Inr (foldl (+) 0 (map (get_edge_length tree)
                        (visit_order tree (find_mrca tree (set leaf_nodes)) leaf_nodes))))
         \<and> distinct (visit_order tree (find_mrca tree (set leaf_nodes)) leaf_nodes)
         \<and> set (visit_order tree (find_mrca tree (set leaf_nodes)) leaf_nodes) =
             path_union tree (find_mrca tree (set leaf_nodes)) leaf_nodes"
  using optimized_visit_order[OF assms] by (simp add: distinct_visit_order set_visit_order)

theorem faiths_pd_counts_each_edge_once_witness:
  "2 \<le> length [2, 4 :: CT_NODE_T]
   \<and> reaches scenario_tree (find_mrca scenario_tree (set [2, 4])) 2
   \<and> reaches scenario_tree (find_mrca scenario_tree (set [2, 4])) 4
   \<and> visit_order scenario_tree (find_mrca scenario_tree (set [2, 4])) [2, 4] = [2, 1, 4]
   \<and> path_union scenario_tree (find_mrca scenario_tree (set [2, 4])) [2, 4] = {1, 2, 4}
   \<and> calculate_faiths_pd_optimized scenario_tree [2, 4] = Some (Inr 6)"
proof -
  have h1: "2 \<le> length [2, 4 :: CT_NODE_T]" by simp
  have h2: "\<forall>l\<in>set [2, 4]. reaches scenario_tree (find_mrca scenario_tree (set [2, 4])) l"
    by (simp add: scenario_find_mrca scenario_reaches)
  have vo: "visit_order scenario_tree (find_mrca scenario_tree (set [2, 4])) [2, 4] = [2, 1, 4]"
    by (simp add: visit_order_def remove_repeats_def path_list_def scenario_find_mrca
          scenario_chains)
  have pu: "path_union scenario_tree (find_mrca scenario_tree (set [2, 4])) [2, 4] = {1, 2, 4}"
    by (auto simp: path_union_def path_list_def scenario_find_mrca scenario_chains)
  have el: "foldl (+) 0 (map (get_edge_length scenario_tree) [2, 1, 4]) = 6"
    by (simp add: scenario_tree_def)
  from faiths_pd_counts_each_edge_once[OF h1 h2]
  have "calculate_faiths_pd_optimized scenario_tree [2, 4] =
        Some (Inr (foldl (+) 0 (map (get_edge_length scenario_tree)
                     (visit_order scenario_tree (find_mrca scenario_tree (set [2, 4])) [2, 4]))))"
    by (rule conjunct1)
  then have r: "calculate_faiths_pd_optimized scenario_tree [2, 4] = Some (Inr 6)"
    by (simp only: vo el)
  from h2 have h3: "reaches scenario_tree (find_mrca scenario_tree (set [2, 4])) 2"
    and h4: "reaches scenario_tree (find_mrca scenario_tree (set [2, 4])) 4"
    by simp_all
  from h1 h3 h4 vo pu r show ?thesis
    by (intro conjI)
qed

section \<open>The batch\<close>

lemma collect_append_value:
  "collect (xs @ Some (Inr v) # ys) =
   map_option (map_sum id (\<lambda>rs. take (length xs) rs @ v # drop (length xs) rs))
     (collect (xs @ ys))"
proof (induction xs)
  case Nil
  show ?case by (simp add: id_def)
next
  case (Cons x xs)
  show ?case
  proof (cases x)
    case None
    then show ?thesis by simp
  next
    case (Some y)
    show ?thesis
    proof (cases y)
      case (Inl e)
      with Some show ?thesis by simp
    next
      case (Inr u)
      with Some Cons.IH show ?thesis
        by (cases "collect (xs @ ys)"; cases "the (collect (xs @ ys))") simp_all
    qed
  qed
qed

lemma collect_Inr_iff:
  "collect xs = Some (Inr rs) \<longleftrightarrow>
   length rs = length xs \<and> (\<forall>i<length xs. xs ! i = Some (Inr (rs ! i)))"
proof (induction xs arbitrary: rs)
  case Nil
  show ?case by auto
next
  case (Cons x xs)
  show ?case
  proof (cases x)
    case None
    then show ?thesis by auto
  next
    case (Some y)
    show ?thesis
    proof (cases y)
      case (Inl e)
      with Some show ?thesis by auto
    next
      case (Inr u)
      show ?thesis
      proof
        assume "collect (x # xs) = Some (Inr rs)"
        with Some Inr obtain rs' where rs': "collect xs = Some (Inr rs')" and rs: "rs = u # rs'"
          by (auto simp: map_sum_Inr_iff)
        from Cons.IH[of rs'] rs' have "length rs' = length xs"
          and "\<forall>i<length xs. xs ! i = Some (Inr (rs' ! i))"
          by simp_all
        with Some Inr rs show "length rs = length (x # xs) \<and>
            (\<forall>i<length (x # xs). (x # xs) ! i = Some (Inr (rs ! i)))"
          by (auto simp: nth_Cons split: nat.splits)
      next
        assume a: "length rs = length (x # xs) \<and>
            (\<forall>i<length (x # xs). (x # xs) ! i = Some (Inr (rs ! i)))"
        then obtain r rs' where rs: "rs = r # rs'"
          by (cases rs) auto
        from a rs have "x = Some (Inr r)"
          by auto
        moreover from a rs have "length rs' = length xs \<and>
            (\<forall>i<length xs. xs ! i = Some (Inr (rs' ! i)))"
          by fastforce
        with Cons.IH[of rs'] have "collect xs = Some (Inr rs')"
          by simp
        ultimately show "collect (x # xs) = Some (Inr rs)"
          using rs by simp
      qed
    qed
  qed
qed

lemma batch_loop_collect:
  "length visited = get_num_nodes tree \<Longrightarrow>
   batch_loop tree visited results guilds =
   map_option (map_sum id ((@) results))
     (collect (map (calculate_faiths_pd_optimized tree) guilds))"
proof (induction guilds arbitrary: visited results)
  case Nil
  show ?case by simp
next
  case (Cons g rest)
  show ?case
  proof (cases "length g < 2")
    case True
    with Cons.IH[OF Cons.prems, of "results @ [0]"] show ?thesis
      by (cases "collect (map (calculate_faiths_pd_optimized tree) rest)";
          cases "the (collect (map (calculate_faiths_pd_optimized tree) rest))")
         (simp_all add: optimized_short)
  next
    case False
    then have two: "2 \<le> length g" by simp
    let ?m = "find_mrca tree (set g)"
    let ?st = "(replicate (get_num_nodes tree) (0 :: 8 word), 0 :: 'a)"
    have fill: "map (\<lambda>_. 0 :: 8 word) visited = replicate (get_num_nodes tree) 0"
      using Cons.prems by (simp add: map_replicate_const)
    have loop: "leaves_uint8 tree ?m ?st g =
                map_option (map_sum id (\<lambda>p. fold (visit_uint8 tree) p ?st)) (chains tree ?m g)"
      by (rule leaves_uint8_eq) simp
    show ?thesis
    proof (cases "chains tree ?m g")
      case None
      with False loop fill show ?thesis
        by (simp add: optimized_eq[OF two])
    next
      case (Some y)
      show ?thesis
      proof (cases y)
        case (Inl e)
        with Some False loop fill show ?thesis
          by (simp add: optimized_eq[OF two])
      next
        case (Inr p)
        let ?st' = "fold (visit_uint8 tree) p ?st"
        have len: "length (fst ?st') = get_num_nodes tree"
          by (simp add: length_fold_visit_uint8)
        have val: "calculate_faiths_pd_optimized tree g = Some (Inr (snd ?st'))"
          using Some Inr by (simp add: optimized_eq[OF two] total_uint8)
        have "batch_loop tree visited results (g # rest) =
              batch_loop tree (fst ?st') (results @ [snd ?st']) rest"
          using False loop fill Some Inr by (simp add: case_prod_beta)
        also have "\<dots> = map_option (map_sum id ((@) (results @ [snd ?st'])))
                           (collect (map (calculate_faiths_pd_optimized tree) rest))"
          by (rule Cons.IH[OF len])
        also have "\<dots> = map_option (map_sum id ((@) results))
                           (collect (map (calculate_faiths_pd_optimized tree) (g # rest)))"
          using val
          by (cases "collect (map (calculate_faiths_pd_optimized tree) rest)";
              cases "the (collect (map (calculate_faiths_pd_optimized tree) rest))")
             simp_all
        finally show ?thesis .
      qed
    qed
  qed
qed

lemma batch_collect:
  "calculate_faiths_pd_batch tree guilds =
   collect (map (calculate_faiths_pd_optimized tree) guilds)"
proof -
  have "calculate_faiths_pd_batch tree guilds =
        map_option (map_sum id ((@) []))
          (collect (map (calculate_faiths_pd_optimized tree) guilds))"
    unfolding calculate_faiths_pd_batch_def Let_def
    by (rule batch_loop_collect) simp
  also have "\<dots> = collect (map (calculate_faiths_pd_optimized tree) guilds)"
    by (cases "collect (map (calculate_faiths_pd_optimized tree) guilds)";
        cases "the (collect (map (calculate_faiths_pd_optimized tree) guilds))") simp_all
  finally show ?thesis .
qed

lemma batch_Inr_iff:
  "calculate_faiths_pd_batch tree guilds = Some (Inr results) \<longleftrightarrow>
   length results = length guilds \<and>
   (\<forall>i<length guilds. calculate_faiths_pd_optimized tree (guilds ! i) = Some (Inr (results ! i)))"
  by (simp add: batch_collect collect_Inr_iff)

section \<open>Values on the example trees\<close>

lemma scenario_values:
  "calculate_faiths_pd_optimized scenario_tree [2, 3] = Some (Inr 2)"
  "calculate_faiths_pd_optimized scenario_tree [2, 4] = Some (Inr 6)"
  "calculate_faiths_pd_optimized scenario_tree [2] = Some (Inr 0)"
  by (simp_all add: calculate_faiths_pd_optimized_def scenario_find_mrca walk_uint8.simps)
     (simp_all add: scenario_tree_def scenario_parent_def walk_uint8.simps)

lemma scenario_values_binary64:
  "calculate_faiths_pd_optimized scenario_tree_binary64 [2, 3] = Some (Inr (Binary64 2))"
  "calculate_faiths_pd_optimized scenario_tree_binary64 [2, 4] = Some (Inr (Binary64 6))"
  "calculate_faiths_pd_optimized scenario_tree_binary64 [2] = Some (Inr (Binary64 0))"
  by (simp_all add: calculate_faiths_pd_optimized_def scenario_tree_binary64_def scenario_mrca
        scenario_parent_def walk_uint8.simps zero_binary64_def round_nearest_even_def ulp.simps)

lemma binary64_sums:
  "Binary64 0 + Binary64 (2 ^ 60) = Binary64 (2 ^ 60)"
  "Binary64 (2 ^ 60) + Binary64 100 = Binary64 (2 ^ 60)"
  "Binary64 (2 ^ 60) + Binary64 1 = Binary64 (2 ^ 60)"
  "Binary64 0 + Binary64 100 = Binary64 100"
  "Binary64 100 + Binary64 100 = Binary64 200"
  "Binary64 200 + Binary64 (2 ^ 60) = Binary64 (2 ^ 60 + 256)"
  by (simp_all add: round_nearest_even_def ulp.simps)

lemma star_find_mrca:
  "find_mrca star_tree {1, 2, 3} = 0" "find_mrca star_tree {1, 2, 3, 4} = 0"
  by (simp_all add: star_tree_def star_mrca)

lemma star_edges:
  "get_edge_length star_tree 1 = Binary64 (2 ^ 60)"
  "get_edge_length star_tree 2 = Binary64 100"
  "get_edge_length star_tree 3 = Binary64 100"
  "get_edge_length star_tree 4 = Binary64 1"
  "get_parent star_tree 1 = 0" "get_parent star_tree 2 = 0"
  "get_parent star_tree 3 = 0" "get_parent star_tree 4 = 0"
  "get_num_nodes star_tree = 5"
  by (simp_all add: star_tree_def star_parent_def)

lemma star_values:
  "calculate_faiths_pd_optimized star_tree [1, 2, 3] = Some (Inr (Binary64 (2 ^ 60)))"
  "calculate_faiths_pd_optimized star_tree [2, 3, 1] = Some (Inr (Binary64 (2 ^ 60 + 256)))"
  "calculate_faiths_pd_optimized star_tree [1, 2, 3, 4] = Some (Inr (Binary64 (2 ^ 60)))"
  by (simp_all add: calculate_faiths_pd_optimized_def star_find_mrca insert_commute
        walk_uint8.simps star_edges zero_binary64_def round_nearest_even_def ulp.simps)

section \<open>The claims on values, markers and batches\<close>

text \<open>
  C2. The concrete scenario of the specification: a root \<open>R\<close> with children \<open>A\<close> and
  \<open>B\<close>; \<open>A\<close> has edge length 2 and the leaf children \<open>X\<close> and \<open>Y\<close> with edge length 1
  each; \<open>B\<close> is a leaf with edge length 3. In every tree that holds these five nodes with
  these parents and edge lengths (whatever its node count and numbering), and whose
  \<open>find_mrca\<close> gives \<open>A\<close> for \<open>{X, Y}\<close> and \<open>R\<close> for \<open>{X, B}\<close>,
  \<open>calculate_faiths_pd_optimized\<close> returns 2 for the guild \<open>X, Y\<close>, 6 for the guild
  \<open>X, B\<close> and 0 for the guild \<open>X\<close> alone.
\<close>

theorem spec_scenario_values:
  fixes tree :: "real compact_tree"
  assumes "distinct [R, A, B, X, Y]"
    and "unat A < get_num_nodes tree" "unat B < get_num_nodes tree"
    and "unat X < get_num_nodes tree" "unat Y < get_num_nodes tree"
    and "get_parent tree A = R" "get_parent tree B = R"
    and "get_parent tree X = A" "get_parent tree Y = A"
    and "get_edge_length tree A = 2" "get_edge_length tree B = 3"
    and "get_edge_length tree X = 1" "get_edge_length tree Y = 1"
    and "find_mrca tree {X, Y} = A" "find_mrca tree {X, B} = R"
  shows "calculate_faiths_pd_optimized tree [X, Y] = Some (Inr 2)
       \<and> calculate_faiths_pd_optimized tree [X, B] = Some (Inr 6)
       \<and> calculate_faiths_pd_optimized tree [X] = Some (Inr 0)"
proof -
  from assms(1) have ne: "X \<noteq> A" "Y \<noteq> A" "A \<noteq> R" "B \<noteq> R" "X \<noteq> R" "X \<noteq> Y" "X \<noteq> B" "A \<noteq> B"
    by auto
  have XA: "chain tree A X = Some (Inr [X])"
    using chain_step[of X A tree] ne assms by simp
  have YA: "chain tree A Y = Some (Inr [Y])"
    using chain_step[of Y A tree] ne assms by simp
  have AR: "chain tree R A = Some (Inr [A])"
    using chain_step[of A R tree] ne assms by simp
  have BR: "chain tree R B = Some (Inr [B])"
    using chain_step[of B R tree] ne assms by simp
  have XR: "chain tree R X = Some (Inr [X, A])"
    using chain_step[of X R tree] ne assms AR by simp
  have "calculate_faiths_pd_optimized tree [X, Y] = Some (Inr 2)"
    using assms(14) ne XA YA by (simp add: optimized_eq fold_visit assms(10-13))
  moreover have "calculate_faiths_pd_optimized tree [X, B] = Some (Inr 6)"
    using assms(15) ne XR BR by (simp add: optimized_eq fold_visit assms(10-13))
  moreover have "calculate_faiths_pd_optimized tree [X] = Some (Inr 0)"
    by (simp add: optimized_short)
  ultimately show ?thesis by blast
qed

theorem spec_scenario_values_witness:
  "distinct [0, 1, 4, 2, 3 :: CT_NODE_T]
   \<and> unat (1 :: CT_NODE_T) < get_num_nodes scenario_tree
   \<and> unat (4 :: CT_NODE_T) < get_num_nodes scenario_tree
   \<and> unat (2 :: CT_NODE_T) < get_num_nodes scenario_tree
   \<and> unat (3 :: CT_NODE_T) < get_num_nodes scenario_tree
   \<and> get_parent scenario_tree 1 = 0 \<and> get_parent scenario_tree 4 = 0
   \<and> get_parent scenario_tree 2 = 1 \<and> get_parent scenario_tree 3 = 1
   \<and> get_edge_length scenario_tree 1 = 2 \<and> get_edge_length scenario_tree 4 = 3
   \<and> get_edge_length scenario_tree 2 = 1 \<and> get_edge_length scenario_tree 3 = 1
   \<and> find_mrca scenario_tree {2, 3} = 1 \<and> find_mrca scenario_tree {2, 4} = 0
   \<and> calculate_faiths_pd_optimized scenario_tree [2, 3] = Some (Inr 2)
   \<and> calculate_faiths_pd_optimized scenario_tree [2, 4] = Some (Inr 6)
   \<and> calculate_faiths_pd_optimized scenario_tree [2] = Some (Inr 0)"
proof -
  have d: "distinct [0, 1, 4, 2, 3 :: CT_NODE_T]" by simp
  have r: "unat (1 :: CT_NODE_T) < get_num_nodes scenario_tree"
    "unat (4 :: CT_NODE_T) < get_num_nodes scenario_tree"
    "unat (2 :: CT_NODE_T) < get_num_nodes scenario_tree"
    "unat (3 :: CT_NODE_T) < get_num_nodes scenario_tree"
    by (simp_all add: scenario_tree_def)
  have p: "get_parent scenario_tree 1 = 0" "get_parent scenario_tree 4 = 0"
    "get_parent scenario_tree 2 = 1" "get_parent scenario_tree 3 = 1"
    by (simp_all add: scenario_tree_def scenario_parent_def)
  have e: "get_edge_length scenario_tree 1 = 2" "get_edge_length scenario_tree 4 = 3"
    "get_edge_length scenario_tree 2 = 1" "get_edge_length scenario_tree 3 = 1"
    by (simp_all add: scenario_tree_def)
  note m = scenario_find_mrca
  from spec_scenario_values[OF d r p e m]
  have v: "calculate_faiths_pd_optimized scenario_tree [2, 3] = Some (Inr 2)"
    "calculate_faiths_pd_optimized scenario_tree [2, 4] = Some (Inr 6)"
    "calculate_faiths_pd_optimized scenario_tree [2] = Some (Inr 0)"
    by blast+
  from d r p e m v show ?thesis
    by (intro conjI)
qed

text \<open>
  C3. The batch is the list of the values that \<open>calculate_faiths_pd_optimized\<close> gives on
  each guild alone, in the order of the guilds, and it returns exactly when each of these
  evaluations returns: the element at index \<open>i\<close> of the result is the value of the guild at
  index \<open>i\<close>, whatever stands before or after it in the batch. The one \<open>visited\<close> vector,
  refilled with zeros before each guild, carries nothing from one guild to the next.
\<close>

theorem batch_equals_single_evaluations:
  "calculate_faiths_pd_batch tree guilds =
     collect (map (calculate_faiths_pd_optimized tree) guilds)
   \<and> (calculate_faiths_pd_batch tree guilds = Some (Inr results) \<longleftrightarrow>
        length results = length guilds \<and>
        (\<forall>i<length guilds.
           calculate_faiths_pd_optimized tree (guilds ! i) = Some (Inr (results ! i))))"
  using batch_collect batch_Inr_iff by blast

theorem batch_equals_single_evaluations_witness:
  "calculate_faiths_pd_batch scenario_tree [[2, 3], [2], [2, 4], [2, 3]] =
     Some (Inr [2, 0, 6, 2])
   \<and> calculate_faiths_pd_optimized scenario_tree [2, 3] = Some (Inr 2)
   \<and> calculate_faiths_pd_optimized scenario_tree [2] = Some (Inr 0)
   \<and> calculate_faiths_pd_optimized scenario_tree [2, 4] = Some (Inr 6)"
proof -
  let ?gs = "[[2, 3], [2], [2, 4], [2, 3 :: CT_NODE_T]]"
  let ?rs = "[2, 0, 6, 2 :: real]"
  have "calculate_faiths_pd_optimized scenario_tree (?gs ! i) = Some (Inr (?rs ! i))"
    if "i < length ?gs" for i
  proof -
    from that consider "i = 0" | "i = 1" | "i = 2" | "i = 3"
      by fastforce
    then show ?thesis
      by cases (simp_all add: scenario_values)
  qed
  then have "length ?rs = length ?gs \<and>
      (\<forall>i<length ?gs. calculate_faiths_pd_optimized scenario_tree (?gs ! i) = Some (Inr (?rs ! i)))"
    by simp
  with batch_equals_single_evaluations[of scenario_tree ?gs ?rs]
  have "calculate_faiths_pd_batch scenario_tree ?gs = Some (Inr ?rs)"
    by blast
  then show ?thesis
    by (simp add: scenario_values)
qed

text \<open>
  C4. On a list of fewer than two leaf ids \<open>calculate_faiths_pd_optimized\<close> returns 0,
  and the same on any other tree: the value does not depend on the tree. In a batch such a
  guild, at any position, puts a 0 at its place in the results and changes nothing else:
  the batch with the guild is the batch without it, with 0 inserted at the guild's index
  (also when another guild fails).
\<close>

theorem short_guild_is_zero:
  assumes "length leaf_nodes < 2"
  shows "calculate_faiths_pd_optimized tree leaf_nodes = Some (Inr 0)
       \<and> calculate_faiths_pd_optimized other_tree leaf_nodes =
           calculate_faiths_pd_optimized tree leaf_nodes
       \<and> calculate_faiths_pd_batch tree (before @ leaf_nodes # after) =
           map_option (map_sum id (\<lambda>rs. take (length before) rs @ 0 # drop (length before) rs))
             (calculate_faiths_pd_batch tree (before @ after))"
proof -
  have "collect (map (calculate_faiths_pd_optimized tree) (before @ leaf_nodes # after)) =
        collect (map (calculate_faiths_pd_optimized tree) before
                 @ Some (Inr 0) # map (calculate_faiths_pd_optimized tree) after)"
    using assms by (simp add: optimized_short)
  also have "\<dots> = map_option (map_sum id (\<lambda>rs. take (length before) rs @ 0 # drop (length before) rs))
                     (collect (map (calculate_faiths_pd_optimized tree) (before @ after)))"
    using collect_append_value[of "map (calculate_faiths_pd_optimized tree) before" 0
            "map (calculate_faiths_pd_optimized tree) after"]
    by simp
  finally show ?thesis
    using assms by (simp add: batch_collect optimized_short)
qed

theorem short_guild_is_zero_witness:
  "length [2 :: CT_NODE_T] < 2
   \<and> calculate_faiths_pd_optimized scenario_tree [2] = Some (Inr 0)
   \<and> calculate_faiths_pd_optimized star_tree [2] = Some (Inr 0)
   \<and> calculate_faiths_pd_batch scenario_tree [[2, 3], [2], [2, 4]] = Some (Inr [2, 0, 6])"
proof -
  have h: "length [2 :: CT_NODE_T] < 2" by simp
  have b: "calculate_faiths_pd_batch scenario_tree ([[2, 3]] @ [[2, 4]]) = Some (Inr [2, 6])"
    by (simp add: batch_collect scenario_values)
  from short_guild_is_zero[OF h, of scenario_tree scenario_tree "[[2, 3]]" "[[2, 4]]"] b
  have "calculate_faiths_pd_optimized scenario_tree [2] = Some (Inr 0)"
    and "calculate_faiths_pd_batch scenario_tree [[2, 3], [2], [2, 4]] = Some (Inr [2, 0, 6])"
    by simp_all
  moreover from short_guild_is_zero[OF h, of star_tree]
  have "calculate_faiths_pd_optimized star_tree [2] = Some (Inr 0)"
    by (rule conjunct1)
  ultimately show ?thesis using h by blast
qed

text \<open>
  C8. The four implementations give the same outcome on every tree and every list of leaf
  ids, for every arithmetic of the accumulator: the hash set of
  \<open>calculate_faiths_pd_original\<close>, the bit vector of \<open>calculate_faiths_pd_vectorbool\<close> and
  the byte vector of \<open>calculate_faiths_pd_vectoruint8\<close> and
  \<open>calculate_faiths_pd_optimized\<close> lead to the same additions in the same order.
\<close>

theorem marker_structure_irrelevant:
  "calculate_faiths_pd_original tree leaf_nodes = calculate_faiths_pd_optimized tree leaf_nodes
   \<and> calculate_faiths_pd_vectorbool tree leaf_nodes =
       calculate_faiths_pd_optimized tree leaf_nodes
   \<and> calculate_faiths_pd_vectoruint8 tree leaf_nodes =
       calculate_faiths_pd_optimized tree leaf_nodes"
proof (cases "length leaf_nodes < 2")
  case True
  then show ?thesis by (simp add: variants_short optimized_short)
next
  case False
  then have "2 \<le> length leaf_nodes" by simp
  then show ?thesis
    by (simp only: original_eq vectorbool_eq vectoruint8_eq optimized_eq simp_thms)
qed

theorem marker_structure_irrelevant_witness:
  "calculate_faiths_pd_original star_tree [1, 2, 3] = Some (Inr (Binary64 (2 ^ 60)))
   \<and> calculate_faiths_pd_vectorbool star_tree [1, 2, 3] = Some (Inr (Binary64 (2 ^ 60)))
   \<and> calculate_faiths_pd_vectoruint8 star_tree [1, 2, 3] = Some (Inr (Binary64 (2 ^ 60)))
   \<and> calculate_faiths_pd_optimized star_tree [1, 2, 3] = Some (Inr (Binary64 (2 ^ 60)))"
  using marker_structure_irrelevant[of star_tree "[1, 2, 3]"]
  by (simp only: star_values simp_thms)

section \<open>Repeated leaves\<close>

lemma chains_fold_Cons:
  "map_option (map_sum id (\<lambda>p. fold f p st)) (chains tree a (leaf # rest)) =
   (case chain tree a leaf of
      None \<Rightarrow> None
    | Some (Inl e) \<Rightarrow> Some (Inl e)
    | Some (Inr q) \<Rightarrow> map_option (map_sum id (\<lambda>p. fold f p (fold f q st))) (chains tree a rest))"
  by (cases "chain tree a leaf"; cases "the (chain tree a leaf)";
      cases "chains tree a rest"; cases "the (chains tree a rest)") simp_all

lemma repeats_fold:
  assumes "\<forall>l\<in>V. \<exists>p. chain tree a l = Some (Inr p) \<and> set p \<subseteq> fst st"
  shows "map_option (map_sum id (\<lambda>p. fold (visit tree) p st)) (chains tree a leaf_nodes) =
         map_option (map_sum id (\<lambda>p. fold (visit tree) p st))
           (chains tree a (new_nodes V leaf_nodes))"
  using assms
proof (induction leaf_nodes arbitrary: V st)
  case Nil
  show ?case by simp
next
  case (Cons leaf rest)
  show ?case
  proof (cases "leaf \<in> V")
    case True
    with Cons.prems obtain q where q: "chain tree a leaf = Some (Inr q)" "set q \<subseteq> fst st"
      by blast
    then have "fold (visit tree) q st = st"
      by (simp add: fold_visit_marked)
    with q True Cons.IH[OF Cons.prems] show ?thesis
      by (simp only: chains_fold_Cons new_nodes.simps if_True option.case sum.case)
  next
    case False
    show ?thesis
    proof (cases "chain tree a leaf")
      case None
      with False show ?thesis
        by (simp only: chains_fold_Cons new_nodes.simps if_False option.case)
    next
      case (Some y)
      show ?thesis
      proof (cases y)
        case (Inl e)
        with Some False show ?thesis
          by (simp only: chains_fold_Cons new_nodes.simps if_False option.case sum.case)
      next
        case (Inr q)
        have "\<forall>l\<in>insert leaf V. \<exists>p. chain tree a l = Some (Inr p) \<and>
                set p \<subseteq> fst (fold (visit tree) q st)"
          using Cons.prems Some Inr by (fastforce simp: fst_fold_visit)
        from Cons.IH[OF this] Some Inr False show ?thesis
          by (simp only: chains_fold_Cons new_nodes.simps if_False option.case sum.case)
      qed
    qed
  qed
qed

lemma set_remove_repeats: "set (remove_repeats ns) = set ns"
  by (simp add: remove_repeats_def set_new_nodes)

lemma distinct_remove_repeats: "distinct (remove_repeats ns)"
  by (simp add: remove_repeats_def distinct_new_nodes)

lemma remove_repeats_short: "length ns < 2 \<Longrightarrow> remove_repeats ns = ns"
  by (cases ns) (auto simp: remove_repeats_def)

lemma chains_all_self: "set leaf_nodes \<subseteq> {a} \<Longrightarrow> chains tree a leaf_nodes = Some (Inr [])"
  by (induction leaf_nodes) simp_all

text \<open>
  C10. When \<open>find_mrca\<close> of a one-element set is that element (as the specification says
  of it), \<open>calculate_faiths_pd_optimized\<close> has the same outcome on a list of leaf ids and
  on the list without its repeated entries, first occurrences kept: the walk of a repeated
  leaf finds every node of its path marked and adds nothing, and the set handed to
  \<open>find_mrca\<close> is the same. This holds for every arithmetic of the accumulator.
\<close>

theorem repeated_leaves_add_nothing:
  assumes "\<forall>x\<in>set leaf_nodes. find_mrca tree {x} = x"
  shows "calculate_faiths_pd_optimized tree leaf_nodes =
         calculate_faiths_pd_optimized tree (remove_repeats leaf_nodes)"
proof -
  consider (short) "length leaf_nodes < 2"
    | (one) "2 \<le> length leaf_nodes" "length (remove_repeats leaf_nodes) < 2"
    | (many) "2 \<le> length leaf_nodes" "2 \<le> length (remove_repeats leaf_nodes)"
    by linarith
  then show ?thesis
  proof cases
    case short
    then show ?thesis by (simp add: remove_repeats_short)
  next
    case one
    then obtain x where x: "x \<in> set leaf_nodes"
      by (cases leaf_nodes) auto
    have "card (set leaf_nodes) = length (remove_repeats leaf_nodes)"
      using distinct_card[OF distinct_remove_repeats, of leaf_nodes]
      by (simp add: set_remove_repeats)
    with one(2) have "card (set leaf_nodes) \<le> 1"
      by simp
    with x have s: "set leaf_nodes = {x}"
      by (metis List.finite_set card_le_Suc0_iff_eq One_nat_def empty_iff insertI1
            is_singletonI' is_singleton_the_elem singletonD)
    with assms have m: "find_mrca tree (set leaf_nodes) = x"
      by simp
    have "chains tree x leaf_nodes = Some (Inr [])"
      using s by (simp add: chains_all_self)
    then have "calculate_faiths_pd_optimized tree leaf_nodes = Some (Inr 0)"
      using m by (simp add: optimized_eq[OF one(1)])
    with one(2) show ?thesis
      by (simp add: optimized_short)
  next
    case many
    let ?m = "find_mrca tree (set leaf_nodes)"
    have "map_option (map_sum id (\<lambda>p. fold (visit tree) p ({}, 0))) (chains tree ?m leaf_nodes) =
          map_option (map_sum id (\<lambda>p. fold (visit tree) p ({}, 0)))
            (chains tree ?m (new_nodes {} leaf_nodes))"
      by (rule repeats_fold) simp
    then have "map_option (map_sum id snd)
                 (map_option (map_sum id (\<lambda>p. fold (visit tree) p ({}, 0)))
                    (chains tree ?m leaf_nodes)) =
               map_option (map_sum id snd)
                 (map_option (map_sum id (\<lambda>p. fold (visit tree) p ({}, 0)))
                    (chains tree ?m (remove_repeats leaf_nodes)))"
      by (simp only: remove_repeats_def)
    then show ?thesis
      by (simp add: optimized_eq[OF many(1)] optimized_eq[OF many(2)] set_remove_repeats
            option.map_comp sum.map_comp comp_def id_def)
  qed
qed

theorem repeated_leaves_add_nothing_witness:
  "find_mrca star_tree {1} = 1 \<and> find_mrca star_tree {2} = 2 \<and> find_mrca star_tree {3} = 3
   \<and> remove_repeats [1, 2, 1, 3, 2 :: CT_NODE_T] = [1, 2, 3]
   \<and> calculate_faiths_pd_optimized star_tree [1, 2, 1, 3, 2] = Some (Inr (Binary64 (2 ^ 60)))"
proof -
  have a: "ancestors 5 star_parent 1 = [1, 0]" "ancestors 5 star_parent 2 = [2, 0]"
    "ancestors 5 star_parent 3 = [3, 0]"
    by (simp_all add: star_ancestors)
  have m: "find_mrca star_tree {1} = 1" "find_mrca star_tree {2} = 2" "find_mrca star_tree {3} = 3"
    by (simp_all add: star_tree_def find_mrca_fold_def)
  have h: "\<forall>x\<in>set [1, 2, 1, 3, 2 :: CT_NODE_T]. find_mrca star_tree {x} = x"
    using m by simp
  have r: "remove_repeats [1, 2, 1, 3, 2 :: CT_NODE_T] = [1, 2, 3]"
    by (simp add: remove_repeats_def)
  from repeated_leaves_add_nothing[OF h]
  have "calculate_faiths_pd_optimized star_tree [1, 2, 1, 3, 2] =
        calculate_faiths_pd_optimized star_tree [1, 2, 3]"
    by (simp only: r)
  then have "calculate_faiths_pd_optimized star_tree [1, 2, 1, 3, 2] =
             Some (Inr (Binary64 (2 ^ 60)))"
    by (simp only: star_values)
  with m r show ?thesis
    by (intro conjI)
qed

section \<open>Walks that return\<close>

lemma reaches_ancestor_or_self:
  "chain tree a n = Some (Inr p) \<Longrightarrow> ancestor_or_self tree a n"
proof (induction p arbitrary: n)
  case Nil
  then have "n = a" by (rule chain_Nil)
  then have "(get_parent tree ^^ 0) n = a" by simp
  then show ?case unfolding ancestor_or_self_def by blast
next
  case (Cons x p)
  from chain_Cons[OF Cons.prems] have inr: "unat n < get_num_nodes tree"
    and up: "chain tree a (get_parent tree n) = Some (Inr p)"
    by simp_all
  from Cons.IH[OF up] obtain k where k: "(get_parent tree ^^ k) (get_parent tree n) = a"
    and r: "\<forall>j<k. unat ((get_parent tree ^^ j) (get_parent tree n)) < get_num_nodes tree"
    unfolding ancestor_or_self_def by blast
  have "(get_parent tree ^^ Suc k) n = a"
    using k by (simp add: funpow_swap1)
  moreover have "unat ((get_parent tree ^^ j) n) < get_num_nodes tree" if "j < Suc k" for j
  proof (cases j)
    case 0
    with inr show ?thesis by simp
  next
    case (Suc i)
    with that r show ?thesis by (simp add: funpow_swap1)
  qed
  ultimately show ?case unfolding ancestor_or_self_def by blast
qed

lemma ancestor_or_self_reaches:
  assumes "(get_parent tree ^^ k) n = a"
    and "\<forall>j<k. unat ((get_parent tree ^^ j) n) < get_num_nodes tree"
  shows "\<exists>p. chain tree a n = Some (Inr p)"
  using assms
proof (induction k arbitrary: n)
  case 0
  then show ?case by simp
next
  case (Suc k)
  show ?case
  proof (cases "n = a")
    case True
    then show ?thesis by simp
  next
    case False
    from Suc.prems(2) have inr: "unat n < get_num_nodes tree"
      by (metis funpow_0 zero_less_Suc)
    have "(get_parent tree ^^ k) (get_parent tree n) = a"
      using Suc.prems(1) by (simp add: funpow_swap1)
    moreover have "\<forall>j<k. unat ((get_parent tree ^^ j) (get_parent tree n)) < get_num_nodes tree"
    proof (intro allI impI)
      fix j assume "j < k"
      then have "Suc j < Suc k" by simp
      with Suc.prems(2) have "unat ((get_parent tree ^^ Suc j) n) < get_num_nodes tree"
        by blast
      then show "unat ((get_parent tree ^^ j) (get_parent tree n)) < get_num_nodes tree"
        by (simp add: funpow_swap1)
    qed
    ultimately obtain p where "chain tree a (get_parent tree n) = Some (Inr p)"
      using Suc.IH by blast
    with False inr show ?thesis by (simp add: chain_step)
  qed
qed

lemma reaches_iff_ancestor_or_self: "reaches tree a n \<longleftrightarrow> ancestor_or_self tree a n"
proof
  assume "reaches tree a n"
  then show "ancestor_or_self tree a n"
    by (auto simp: reaches_iff intro: reaches_ancestor_or_self)
next
  assume "ancestor_or_self tree a n"
  then show "reaches tree a n"
    unfolding ancestor_or_self_def reaches_iff by (blast intro: ancestor_or_self_reaches)
qed

lemma walk_uint8_returns_iff:
  assumes "length (fst st) = get_num_nodes tree"
  shows "(\<exists>st'. walk_uint8 tree mrca st leaf = Some (Inr st')) \<longleftrightarrow> reaches tree mrca leaf"
  unfolding walk_uint8_eq[OF assms] reaches_iff map_result_Inr_iff by blast

lemma collect_returns_iff:
  "(\<exists>rs. collect xs = Some (Inr rs)) \<longleftrightarrow> (\<forall>x\<in>set xs. \<exists>r. x = Some (Inr r))"
proof (induction xs)
  case Nil
  show ?case by simp
next
  case (Cons x xs)
  show ?case
  proof (cases x)
    case None
    then show ?thesis by simp
  next
    case (Some y)
    with Cons.IH show ?thesis
      by (cases y) (auto simp: map_sum_Inr_iff)
  qed
qed

lemma batch_returns_iff:
  "(\<exists>rs. calculate_faiths_pd_batch tree guilds = Some (Inr rs)) \<longleftrightarrow>
   (\<forall>g\<in>set guilds. 2 \<le> length g \<longrightarrow>
      (\<forall>l\<in>set g. reaches tree (find_mrca tree (set g)) l))"
proof -
  have "(\<exists>r. calculate_faiths_pd_optimized tree g = Some (Inr r)) \<longleftrightarrow>
        (2 \<le> length g \<longrightarrow> (\<forall>l\<in>set g. reaches tree (find_mrca tree (set g)) l))" for g
  proof (cases "2 \<le> length g")
    case True
    then show ?thesis by (simp add: optimized_returns_iff)
  next
    case False
    then show ?thesis by (simp add: optimized_short)
  qed
  then show ?thesis
    by (simp add: batch_collect collect_returns_iff)
qed

text \<open>
  C9. A walk up from a leaf returns exactly when the node taken as MRCA is an ancestor of
  the leaf, or the leaf itself, through nodes of the tree: some number of parent steps
  leads from the leaf to it. With such an ancestor the loop ends; without one the exit
  test \<open>current = mrca\<close> never holds, and the walk either goes on for ever or leaves the
  node range. So \<open>calculate_faiths_pd_optimized\<close> on a guild of two or more leaves, and
  \<open>calculate_faiths_pd_batch\<close> on a list of guilds, return exactly when \<open>find_mrca\<close>
  gives such an ancestor for every leaf (of every guild of two or more leaves).
\<close>

theorem walks_return_iff_mrca_is_ancestor:
  "(length (fst st) = get_num_nodes tree \<longrightarrow>
      ((\<exists>st'. walk_uint8 tree mrca st leaf = Some (Inr st')) \<longleftrightarrow>
       ancestor_or_self tree mrca leaf))
   \<and> (2 \<le> length leaf_nodes \<longrightarrow>
      ((\<exists>r. calculate_faiths_pd_optimized tree leaf_nodes = Some (Inr r)) \<longleftrightarrow>
       (\<forall>l\<in>set leaf_nodes. ancestor_or_self tree (find_mrca tree (set leaf_nodes)) l)))
   \<and> ((\<exists>rs. calculate_faiths_pd_batch tree guilds = Some (Inr rs)) \<longleftrightarrow>
      (\<forall>g\<in>set guilds. 2 \<le> length g \<longrightarrow>
         (\<forall>l\<in>set g. ancestor_or_self tree (find_mrca tree (set g)) l)))"
  using walk_uint8_returns_iff[of st tree mrca leaf]
    optimized_returns_iff[of leaf_nodes tree] batch_returns_iff[of tree guilds]
  by (simp add: reaches_iff_ancestor_or_self)

theorem walks_return_iff_mrca_is_ancestor_witness:
  "length (fst (replicate 5 (0 :: 8 word), 0 :: real)) = get_num_nodes scenario_tree
   \<and> map_option (map_sum id snd) (walk_uint8 scenario_tree 1 (replicate 5 0, 0) 2) =
       Some (Inr 1)
   \<and> ancestor_or_self scenario_tree 1 2
   \<and> walk_uint8 scenario_tree 1 (replicate 5 0, 0) 4 = Some (Inl OutOfRange)
   \<and> \<not> ancestor_or_self scenario_tree 1 4
   \<and> 2 \<le> length [2, 4 :: CT_NODE_T]
   \<and> calculate_faiths_pd_optimized scenario_tree [2, 4] = Some (Inr 6)
   \<and> ancestor_or_self scenario_tree (find_mrca scenario_tree (set [2, 4])) 2
   \<and> ancestor_or_self scenario_tree (find_mrca scenario_tree (set [2, 4])) 4"
proof -
  let ?st = "(replicate 5 (0 :: 8 word), 0 :: real)"
  have len: "length (fst ?st) = get_num_nodes scenario_tree"
    by (simp add: scenario_tree_def)
  have w2: "map_option (map_sum id snd) (walk_uint8 scenario_tree 1 ?st 2) = Some (Inr 1)"
    by (simp add: walk_uint8.simps scenario_tree_def scenario_parent_def)
  then have w2': "\<exists>st'. walk_uint8 scenario_tree 1 ?st 2 = Some (Inr st')"
    by (auto simp: map_sum_Inr_iff)
  have w4: "walk_uint8 scenario_tree 1 ?st 4 = Some (Inl OutOfRange)"
    by (simp add: walk_uint8.simps scenario_tree_def scenario_parent_def NULL_NODE_def)
  have two: "2 \<le> length [2, 4 :: CT_NODE_T]"
    by simp
  note inst = walks_return_iff_mrca_is_ancestor[of ?st scenario_tree 1 _ "[2, 4]" "[]"]
  from inst[of 2] len w2' have a2: "ancestor_or_self scenario_tree 1 2"
    by blast
  from inst[of 4] len w4 have a4: "\<not> ancestor_or_self scenario_tree 1 4"
    by auto
  from inst[of 2] two scenario_values(2)
  have "\<forall>l\<in>set [2, 4]. ancestor_or_self scenario_tree (find_mrca scenario_tree (set [2, 4])) l"
    by blast
  then have a: "ancestor_or_self scenario_tree (find_mrca scenario_tree (set [2, 4])) 2"
    "ancestor_or_self scenario_tree (find_mrca scenario_tree (set [2, 4])) 4"
    by simp_all
  from len w2 a2 w4 a4 two scenario_values(2) a show ?thesis
    by (intro conjI)
qed

section \<open>Order of the leaves and larger guilds, with exact addition\<close>

lemma paths_comparable:
  assumes "chain tree a n = Some (Inr p)" and "chain tree b n = Some (Inr p')"
  shows "(\<exists>q. p' = p @ q \<and> chain tree b a = Some (Inr q)) \<or>
         (\<exists>q. p = p' @ q \<and> chain tree a b = Some (Inr q))"
  using assms
proof (induction p arbitrary: n p')
  case Nil
  then have "n = a" by (simp add: chain_Nil)
  with Nil.prems(2) show ?case by simp
next
  case (Cons x p)
  from chain_Cons[OF Cons.prems(1)] have na: "n \<noteq> a" and inr: "unat n < get_num_nodes tree"
    and x: "x = n" and up: "chain tree a (get_parent tree n) = Some (Inr p)"
    by simp_all
  show ?case
  proof (cases "n = b")
    case True
    with Cons.prems have "p' = []" "chain tree a b = Some (Inr (x # p))"
      by simp_all
    then show ?thesis by simp
  next
    case False
    with Cons.prems(2) inr obtain p'' where p'': "p' = n # p''"
      and up': "chain tree b (get_parent tree n) = Some (Inr p'')"
      by (auto simp: chain_step map_sum_Inr_iff)
    from Cons.IH[OF up up'] x p'' show ?thesis
      by auto
  qed
qed

lemma finite_path_union: "finite (path_union tree a leaf_nodes)"
  by (simp add: path_union_def)

lemma path_list_mono:
  assumes m: "is_mrca tree S m" and m': "\<forall>l\<in>S. reaches tree m' l" and l: "l \<in> S"
  shows "set (path_list tree m l) \<subseteq> set (path_list tree m' l)"
proof -
  from m l have rl: "reaches tree m l"
    by (simp add: is_mrca_def)
  from m' l have rl': "reaches tree m' l"
    by simp
  note c = reaches_path_list[OF rl] and c' = reaches_path_list[OF rl']
  from paths_comparable[OF c c'] show ?thesis
  proof
    assume "\<exists>q. path_list tree m' l = path_list tree m l @ q \<and> chain tree m' m = Some (Inr q)"
    then show ?thesis by auto
  next
    assume "\<exists>q. path_list tree m l = path_list tree m' l @ q \<and> chain tree m m' = Some (Inr q)"
    then obtain q where q: "path_list tree m l = path_list tree m' l @ q"
      and mm': "chain tree m m' = Some (Inr q)"
      by blast
    show ?thesis
    proof (cases "m' = m")
      case True
      then show ?thesis by simp
    next
      case False
      moreover from mm' have "reaches tree m m'"
        by (simp add: reaches_iff)
      ultimately have "\<exists>l\<in>S. \<not> reaches tree m' l"
        using m by (simp add: is_mrca_def)
      with m' show ?thesis by blast
    qed
  qed
qed




text \<open>
  With exact addition the comparison of a guild with a larger one does not depend on the
  order of the leaves either. Let the edge lengths be non-negative and let \<open>find_mrca\<close>
  meet its guarantee on the two sets. For a list of distinct leaf ids and a list that holds
  the same ids and one more leaf, \<open>calculate_faiths_pd_optimized\<close> returns on both, and
  the value of the larger guild is at least that of the smaller, provided the addition of
  the accumulator is associative, commutative and monotone (as it is for real numbers).
\<close>

lemma monotone_exact:
  fixes tree :: "('a::ordered_comm_monoid_add) compact_tree"
  assumes nonneg: "\<forall>n. 0 \<le> get_edge_length tree n"
    and d: "distinct leaf_nodes" and x: "x \<notin> set leaf_nodes"
    and s: "set with_x = insert x (set leaf_nodes)"
    and m: "2 \<le> length leaf_nodes \<longrightarrow>
            is_mrca tree (set leaf_nodes) (find_mrca tree (set leaf_nodes))"
    and m': "2 \<le> length with_x \<longrightarrow> is_mrca tree (set with_x) (find_mrca tree (set with_x))"
  shows "\<exists>r r'. calculate_faiths_pd_optimized tree leaf_nodes = Some (Inr r)
               \<and> calculate_faiths_pd_optimized tree with_x = Some (Inr r')
               \<and> r \<le> r'"
proof -
  let ?m = "find_mrca tree (set leaf_nodes)" and ?m' = "find_mrca tree (set with_x)"
  have val': "\<exists>r'. calculate_faiths_pd_optimized tree with_x = Some (Inr r') \<and> 0 \<le> r'"
  proof (cases "2 \<le> length with_x")
    case False
    then show ?thesis by (simp add: optimized_short)
  next
    case True
    with m' have "\<forall>l\<in>set with_x. reaches tree ?m' l"
      by (simp add: is_mrca_def)
    from optimized_sum[OF True this] nonneg show ?thesis
      by (simp add: sum_nonneg)
  qed
  show ?thesis
  proof (cases "2 \<le> length leaf_nodes")
    case False
    with val' show ?thesis by (auto simp: optimized_short)
  next
    case True
    have "card (set with_x) = Suc (length leaf_nodes)"
      using d x s by (simp add: distinct_card)
    moreover have "card (set with_x) \<le> length with_x"
      by (rule card_length)
    ultimately have True': "2 \<le> length with_x"
      using True by linarith
    from m True have mm: "is_mrca tree (set leaf_nodes) ?m"
      by simp
    from m' True' have mm': "is_mrca tree (set with_x) ?m'"
      by simp
    from mm have r: "\<forall>l\<in>set leaf_nodes. reaches tree ?m l"
      by (simp add: is_mrca_def)
    from mm' have r': "\<forall>l\<in>set with_x. reaches tree ?m' l"
      by (simp add: is_mrca_def)
    with s have rr: "\<forall>l\<in>set leaf_nodes. reaches tree ?m' l"
      by simp
    have sub: "path_union tree ?m leaf_nodes \<subseteq> path_union tree ?m' with_x"
      using path_list_mono[OF mm rr] s by (fastforce simp: path_union_def)
    have "sum (get_edge_length tree) (path_union tree ?m leaf_nodes)
          \<le> sum (get_edge_length tree) (path_union tree ?m' with_x)"
      using sub nonneg by (intro sum_mono2) (simp_all add: finite_path_union)
    with optimized_sum[OF True r] optimized_sum[OF True' r'] show ?thesis
      by simp
  qed
qed


section \<open>A further leaf, with rounding addition\<close>

text \<open>
  A parent chain meets no node twice, and the path of a leaf to a higher common ancestor is
  its path to the MRCA followed by the path from the MRCA upwards.
\<close>

lemma chain_mem:
  "chain tree a k = Some (Inr p) \<Longrightarrow> n \<in> set p \<Longrightarrow>
   \<exists>p2. chain tree a n = Some (Inr p2) \<and> length p2 \<le> length p"
proof (induction p arbitrary: k)
  case Nil
  then show ?case by simp
next
  case (Cons x p)
  from chain_Cons[OF Cons.prems(1)] have x: "x = k"
    and up: "chain tree a (get_parent tree k) = Some (Inr p)"
    by simp_all
  show ?case
  proof (cases "n = k")
    case True
    with Cons.prems(1) show ?thesis by auto
  next
    case False
    with Cons.prems(2) x have "n \<in> set p" by simp
    from Cons.IH[OF up this] show ?thesis by auto
  qed
qed

lemma distinct_chain: "chain tree a n = Some (Inr p) \<Longrightarrow> distinct p"
proof (induction p arbitrary: n)
  case Nil
  then show ?case by simp
next
  case (Cons x p)
  from chain_Cons[OF Cons.prems] have x: "x = n"
    and up: "chain tree a (get_parent tree n) = Some (Inr p)"
    by simp_all
  have "n \<notin> set p"
  proof
    assume "n \<in> set p"
    from chain_mem[OF up this] Cons.prems x show False by auto
  qed
  with Cons.IH[OF up] x show ?case by simp
qed

lemma path_list_extend:
  assumes m: "is_mrca tree S m" and m': "\<forall>l\<in>S. reaches tree m' l" and l: "l \<in> S"
  shows "path_list tree m' l = path_list tree m l @ path_list tree m' m"
    and "set (path_list tree m l) \<inter> set (path_list tree m' m) = {}"
proof -
  from m l have rl: "reaches tree m l"
    by (simp add: is_mrca_def)
  from m' l have rl': "reaches tree m' l"
    by simp
  note c = reaches_path_list[OF rl] and c' = reaches_path_list[OF rl']
  from paths_comparable[OF c c']
  show e: "path_list tree m' l = path_list tree m l @ path_list tree m' m"
  proof
    assume "\<exists>q. path_list tree m' l = path_list tree m l @ q \<and> chain tree m' m = Some (Inr q)"
    then show ?thesis by (auto simp: path_list_def)
  next
    assume "\<exists>q. path_list tree m l = path_list tree m' l @ q \<and> chain tree m m' = Some (Inr q)"
    then obtain q where q: "path_list tree m l = path_list tree m' l @ q"
      and mm': "chain tree m m' = Some (Inr q)"
      by blast
    show ?thesis
    proof (cases "m' = m")
      case True
      then show ?thesis by (simp add: path_list_def)
    next
      case False
      moreover from mm' have "reaches tree m m'"
        by (simp add: reaches_iff)
      ultimately have "\<exists>l\<in>S. \<not> reaches tree m' l"
        using m by (simp add: is_mrca_def)
      with m' show ?thesis by blast
    qed
  qed
  from distinct_chain[OF c'] have "distinct (path_list tree m' l)" .
  then show "set (path_list tree m l) \<inter> set (path_list tree m' m) = {}"
    by (simp add: e)
qed

lemma new_nodes_insert_absent:
  "n \<notin> set zs \<Longrightarrow> new_nodes (insert n V) zs = new_nodes V zs"
proof (induction zs arbitrary: V)
  case Nil
  then show ?case by simp
next
  case (Cons z zs)
  from Cons.prems have n: "n \<notin> set zs" and zn: "z \<noteq> n"
    by auto
  have "new_nodes (insert z (insert n V)) zs = new_nodes (insert z V) zs"
    using Cons.IH[OF n, of "insert z V"] by (simp add: insert_commute)
  with Cons.IH[OF n] zn show ?case
    by simp
qed

lemma filter_new_nodes: "filter P (new_nodes V ys) = new_nodes V (filter P ys)"
proof (induction ys arbitrary: V)
  case Nil
  then show ?case by simp
next
  case (Cons y ys)
  have "y \<notin> set (filter P ys)" if "\<not> P y"
    using that by simp
  then show ?case
    by (simp add: Cons.IH new_nodes_insert_absent)
qed

lemma new_nodes_append:
  "new_nodes V (xs @ ys) = new_nodes V xs @ new_nodes (V \<union> set xs) ys"
  by (induction xs arbitrary: V) (simp_all add: insert_absorb)

lemma visit_order_subseq:
  assumes m: "is_mrca tree (set leaf_nodes) m"
    and m': "\<forall>l\<in>set leaf_nodes. reaches tree m' l"
  shows "subseq (visit_order tree m leaf_nodes) (visit_order tree m' (leaf_nodes @ [x]))"
proof -
  let ?Q = "path_list tree m' m"
  let ?P = "\<lambda>n. n \<notin> set ?Q"
  have each: "filter ?P (path_list tree m' l) = path_list tree m l" if "l \<in> set leaf_nodes" for l
  proof -
    from path_list_extend[OF m m' that]
    have e: "path_list tree m' l = path_list tree m l @ ?Q"
      and d: "set (path_list tree m l) \<inter> set ?Q = {}"
      by simp_all
    from d have "filter ?P (path_list tree m l) = path_list tree m l"
      by (auto simp: filter_id_conv)
    then show ?thesis
      by (simp add: e)
  qed
  have "filter ?P (concat (map (path_list tree m') leaf_nodes)) =
        concat (map (path_list tree m) leaf_nodes)"
    using each by (simp add: filter_concat comp_def cong: map_cong)
  then have "filter ?P (concat (map (path_list tree m') (leaf_nodes @ [x]))) =
        concat (map (path_list tree m) leaf_nodes) @ filter ?P (path_list tree m' x)"
    by simp
  then have "filter ?P (visit_order tree m' (leaf_nodes @ [x])) =
        new_nodes {} (concat (map (path_list tree m) leaf_nodes) @ filter ?P (path_list tree m' x))"
    by (simp only: visit_order_def remove_repeats_def filter_new_nodes)
  then have "filter ?P (visit_order tree m' (leaf_nodes @ [x])) =
        visit_order tree m leaf_nodes
        @ new_nodes ({} \<union> set (concat (map (path_list tree m) leaf_nodes)))
            (filter ?P (path_list tree m' x))"
    by (simp only: new_nodes_append visit_order_def remove_repeats_def)
  then have "subseq (visit_order tree m leaf_nodes)
               (filter ?P (visit_order tree m' (leaf_nodes @ [x])))"
    by (simp only: list_emb_prefix[OF subseq_order.order_refl])
  also have "subseq \<dots> (visit_order tree m' (leaf_nodes @ [x]))"
    by (rule subseq_filter_left)
  finally show ?thesis .
qed

lemma foldl_subseq_mono:
  assumes ma: "monotone_addition D"
  shows "subseq xs ys \<Longrightarrow> set ys \<subseteq> D \<Longrightarrow> s \<in> D \<Longrightarrow> t \<in> D \<Longrightarrow> s \<le> t \<Longrightarrow>
         foldl (+) s xs \<le> foldl (+) t ys"
proof (induction xs ys arbitrary: s t rule: list_emb.induct)
  case (list_emb_Nil ys)
  then show ?case
  proof (induction ys arbitrary: t)
    case Nil
    then show ?case by simp
  next
    case (Cons y ys)
    from Cons.prems have y: "y \<in> D" and ys: "set ys \<subseteq> D"
      by simp_all
    from ma Cons.prems(3) y have ty: "t + y \<in> D" and "t \<le> t + y"
      by (simp_all add: monotone_addition_def)
    with ma Cons.prems(2,3,4) have "s \<le> t + y"
      unfolding monotone_addition_def by blast
    from Cons.IH[OF ys Cons.prems(2) ty this] show ?case
      by simp
  qed
next
  case (list_emb_Cons xs ys y)
  from list_emb_Cons.prems have y: "y \<in> D" and ys: "set ys \<subseteq> D"
    by simp_all
  from ma list_emb_Cons.prems(3) y have ty: "t + y \<in> D" and "t \<le> t + y"
    by (simp_all add: monotone_addition_def)
  with ma list_emb_Cons.prems(2,3,4) have "s \<le> t + y"
    unfolding monotone_addition_def by blast
  from list_emb_Cons.IH[OF ys list_emb_Cons.prems(2) ty this] show ?case
    by simp
next
  case (list_emb_Cons2 x y xs ys)
  from list_emb_Cons2.prems have y: "y \<in> D" and ys: "set ys \<subseteq> D"
    by simp_all
  from list_emb_Cons2.hyps have xy: "x = y" by simp
  from ma list_emb_Cons2.prems(2,3) y have sy: "s + y \<in> D" and ty: "t + y \<in> D"
    by (simp_all add: monotone_addition_def)
  from ma list_emb_Cons2.prems(2,3,4) y have "s + y \<le> t + y"
    unfolding monotone_addition_def by blast
  from list_emb_Cons2.IH[OF ys sy ty this] xy show ?case
    by simp
qed

text \<open>
  Rounding to nearest is idempotent and monotone, so the whole-number doubles are a set with
  monotone addition.
\<close>

lemma ulp_small: "n < 2 ^ 53 \<Longrightarrow> ulp n = 1"
  by (subst ulp.simps) simp

lemma ulp_large: "2 ^ 53 \<le> n \<Longrightarrow> ulp n = 2 * ulp (n div 2)"
  by (subst ulp.simps) simp

lemma ulp_pos: "0 < ulp n"
proof (induction n rule: ulp.induct)
  case (1 n)
  show ?case
  proof (cases "n < 2 ^ 53")
    case True
    then show ?thesis by (simp add: ulp_small)
  next
    case False
    with 1 show ?thesis by (simp add: ulp_large)
  qed
qed

lemma ulp_upper: "n < 2 ^ 53 * ulp n"
proof (induction n rule: ulp.induct)
  case (1 n)
  show ?case
  proof (cases "n < 2 ^ 53")
    case True
    then show ?thesis by (simp add: ulp_small)
  next
    case False
    with 1 have "n div 2 < 2 ^ 53 * ulp (n div 2)" by simp
    then have "n < 2 ^ 53 * (2 * ulp (n div 2))" by linarith
    with False show ?thesis by (simp add: ulp_large)
  qed
qed

lemma ulp_lower: "2 ^ 53 \<le> n \<Longrightarrow> 2 ^ 52 * ulp n \<le> n"
proof (induction n rule: ulp.induct)
  case (1 n)
  show ?case
  proof (cases "n div 2 < 2 ^ 53")
    case True
    with 1(2) show ?thesis by (simp add: ulp_large ulp_small)
  next
    case False
    then have "2 ^ 53 \<le> n div 2" by simp
    with 1 have "2 ^ 52 * ulp (n div 2) \<le> n div 2" by simp
    then have "2 ^ 52 * (2 * ulp (n div 2)) \<le> n" by linarith
    with 1(2) show ?thesis by (simp add: ulp_large)
  qed
qed

lemma ulp_dvd_mono: "m \<le> n \<Longrightarrow> ulp m dvd ulp n"
proof (induction n arbitrary: m rule: ulp.induct)
  case (1 n)
  show ?case
  proof (cases "m < 2 ^ 53")
    case True
    then show ?thesis by (simp add: ulp_small)
  next
    case False
    with 1(2) have n: "\<not> n < 2 ^ 53" by simp
    from 1(2) have "m div 2 \<le> n div 2" by (rule div_le_mono)
    from 1(1)[OF n this] False n show ?thesis
      by (simp add: ulp_large)
  qed
qed

lemma ulp_interval: "2 ^ 52 * 2 ^ k \<le> v \<Longrightarrow> v < 2 ^ 53 * 2 ^ k \<Longrightarrow> ulp v = 2 ^ k"
proof (induction k arbitrary: v)
  case 0
  then show ?case by (simp add: ulp_small)
next
  case (Suc k)
  define X :: nat where "X = 2 ^ k"
  have one: "1 \<le> X"
    by (simp add: X_def)
  from Suc.prems have p: "9007199254740992 * X \<le> v" "v < 18014398509481984 * X"
    by (simp_all add: X_def)
  with one have "9007199254740992 \<le> v"
    by linarith
  then have big: "2 ^ 53 \<le> v"
    by simp
  from p have "4503599627370496 * X \<le> v div 2" "v div 2 < 9007199254740992 * X"
    by linarith+
  then have "2 ^ 52 * 2 ^ k \<le> v div 2" "v div 2 < 2 ^ 53 * 2 ^ k"
    by (simp_all add: X_def)
  from Suc.IH[OF this] big show ?case
    by (simp add: ulp_large)
qed

lemma ulp_power: "n < 2 ^ 53 \<or> (\<exists>k. ulp n = 2 ^ k \<and> 2 ^ 52 * 2 ^ k \<le> n \<and> n < 2 ^ 53 * 2 ^ k)"
proof (induction n rule: ulp.induct)
  case (1 n)
  show ?case
  proof (cases "n < 2 ^ 53")
    case True
    then show ?thesis by simp
  next
    case False
    then have big: "2 ^ 53 \<le> n" by simp
    from 1[OF False] show ?thesis
    proof
      assume small: "n div 2 < 2 ^ 53"
      with big have "ulp n = 2 ^ 1" "2 ^ 52 * 2 ^ 1 \<le> n" "n < 2 ^ 53 * 2 ^ 1"
        by (simp_all add: ulp_large ulp_small)
      then show ?thesis by blast
    next
      assume "\<exists>k. ulp (n div 2) = 2 ^ k \<and> 2 ^ 52 * 2 ^ k \<le> n div 2 \<and> n div 2 < 2 ^ 53 * 2 ^ k"
      then obtain k where k: "ulp (n div 2) = 2 ^ k" "2 ^ 52 * 2 ^ k \<le> n div 2"
        "n div 2 < 2 ^ 53 * 2 ^ k"
        by blast
      define X :: nat where "X = 2 ^ k"
      from k(2,3) have "4503599627370496 * X \<le> n div 2" "n div 2 < 9007199254740992 * X"
        by (simp_all add: X_def)
      then have "9007199254740992 * X \<le> n" "n < 18014398509481984 * X"
        by linarith+
      then have "2 ^ 52 * 2 ^ Suc k \<le> n" "n < 2 ^ 53 * 2 ^ Suc k"
        by (simp_all add: X_def)
      moreover from k(1) big have "ulp n = 2 ^ Suc k"
        by (simp add: ulp_large)
      ultimately show ?thesis by blast
    qed
  qed
qed

lemma round_exact: "ulp v dvd v \<Longrightarrow> round_nearest_even v = v"
  using ulp_pos[of v] by (simp add: round_nearest_even_def Let_def)

lemma round_small: "n < 2 ^ 53 \<Longrightarrow> round_nearest_even n = n"
  by (simp add: round_nearest_even_def ulp_small)

lemma round_cases:
  "round_nearest_even n = (n div ulp n) * ulp n \<or> round_nearest_even n = (n div ulp n + 1) * ulp n"
  by (simp add: round_nearest_even_def Let_def)

lemma round_idem: "round_nearest_even (round_nearest_even n) = round_nearest_even n"
proof -
  from ulp_power[of n] show ?thesis
  proof
    assume "n < 2 ^ 53"
    then show ?thesis by (simp add: round_small)
  next
    assume "\<exists>k. ulp n = 2 ^ k \<and> 2 ^ 52 * 2 ^ k \<le> n \<and> n < 2 ^ 53 * 2 ^ k"
    then obtain k where u: "ulp n = 2 ^ k" and lo: "2 ^ 52 * 2 ^ k \<le> n"
      and hi: "n < 2 ^ 53 * 2 ^ k"
      by blast
    let ?q = "n div 2 ^ k"
    from lo have qlo: "2 ^ 52 \<le> ?q"
      by (simp add: less_eq_div_iff_mult_less_eq)
    from hi have qhi: "?q < 2 ^ 53"
      by (rule less_mult_imp_div_less)
    from round_cases[of n]
    have "\<exists>j. round_nearest_even n = j * 2 ^ k \<and> 2 ^ 52 \<le> j \<and> j \<le> 2 ^ 53"
    proof
      assume "round_nearest_even n = (n div ulp n) * ulp n"
      with u qlo qhi show ?thesis
        by (intro exI[of _ ?q]) simp
    next
      assume "round_nearest_even n = (n div ulp n + 1) * ulp n"
      with u qlo qhi show ?thesis
        by (intro exI[of _ "?q + 1"]) simp
    qed
    then obtain j where v: "round_nearest_even n = j * 2 ^ k"
      and j: "2 ^ 52 \<le> j" "j \<le> 2 ^ 53"
      by blast
    have "ulp (j * 2 ^ k) dvd j * 2 ^ k"
    proof (cases "j = 2 ^ 53")
      case True
      have "ulp (2 ^ 53 * 2 ^ k) = 2 ^ Suc k"
        by (rule ulp_interval) simp_all
      then show ?thesis
        by (simp add: True)
    next
      case False
      with j have "j < 2 ^ 53" by simp
      with j(1) have "2 ^ 52 * 2 ^ k \<le> j * 2 ^ k" "j * 2 ^ k < 2 ^ 53 * 2 ^ k"
        by simp_all
      then have "ulp (j * 2 ^ k) = 2 ^ k"
        by (rule ulp_interval)
      then show ?thesis by simp
    qed
    then show ?thesis
      by (simp add: v round_exact)
  qed
qed

lemma round_mono:
  assumes "m \<le> n"
  shows "round_nearest_even m \<le> round_nearest_even n"
proof (cases "ulp m = ulp n")
  case True
  let ?u = "ulp n"
  have pos: "0 < ?u" by (rule ulp_pos)
  from assms have q: "m div ?u \<le> n div ?u" by (rule div_le_mono)
  show ?thesis
  proof (cases "m div ?u = n div ?u")
    case same: True
    with assms have "m mod ?u \<le> n mod ?u"
      by (metis add_le_cancel_left div_mult_mod_eq mult.commute)
    with same True show ?thesis
      by (auto simp: round_nearest_even_def Let_def)
  next
    case False
    with q have "m div ?u + 1 \<le> n div ?u" by simp
    then have "(m div ?u + 1) * ?u \<le> (n div ?u) * ?u"
      by (rule mult_le_mono1)
    moreover have "round_nearest_even m \<le> (m div ?u + 1) * ?u"
      using round_cases[of m] True by auto
    moreover have "(n div ?u) * ?u \<le> round_nearest_even n"
      using round_cases[of n] by auto
    ultimately show ?thesis by linarith
  qed
next
  case False
  from ulp_dvd_mono[OF assms] obtain c where c: "ulp n = ulp m * c"
    by (auto simp: dvd_def)
  with False ulp_pos[of n] have "2 \<le> c"
    by (cases c; cases "c - 1") auto
  then have two: "2 * ulp m \<le> ulp n"
    by (simp add: c)
  have big: "2 ^ 53 \<le> n"
  proof (rule ccontr)
    assume "\<not> 2 ^ 53 \<le> n"
    with assms have "m < 2 ^ 53" "n < 2 ^ 53" by simp_all
    with False show False by (simp add: ulp_small)
  qed
  have "m div ulp m < 2 ^ 53"
    using ulp_upper[of m] by (simp add: less_mult_imp_div_less)
  then have "m div ulp m + 1 \<le> 2 ^ 53" by simp
  then have "(m div ulp m + 1) * ulp m \<le> 2 ^ 53 * ulp m"
    by (rule mult_le_mono1)
  moreover have "round_nearest_even m \<le> (m div ulp m + 1) * ulp m"
    using round_cases[of m] by auto
  moreover have "2 ^ 52 \<le> n div ulp n"
    using ulp_lower[OF big] ulp_pos[of n] by (simp add: less_eq_div_iff_mult_less_eq)
  then have "2 ^ 52 * ulp n \<le> (n div ulp n) * ulp n"
    by (rule mult_le_mono1)
  moreover have "(n div ulp n) * ulp n \<le> round_nearest_even n"
    using round_cases[of n] by auto
  moreover from two have "2 ^ 53 * ulp m \<le> 2 ^ 52 * ulp n"
    by simp
  ultimately show ?thesis by linarith
qed


lemma monotone_addition_doubles: "monotone_addition doubles"
proof -
  have mem: "d \<in> doubles \<longleftrightarrow> (\<exists>n. d = Binary64 n \<and> round_nearest_even n = n)" for d
    by (cases d) (simp add: doubles_def)
  have z: "(0::binary64) \<in> doubles"
    by (simp add: mem zero_binary64_def round_small)
  have closed: "\<forall>a\<in>doubles. \<forall>c\<in>doubles. a + c \<in> doubles"
    by (auto simp: mem round_idem)
  have refl: "\<forall>a\<in>doubles. a \<le> a"
    by (auto simp: mem)
  have trans: "\<forall>a\<in>doubles. \<forall>b\<in>doubles. \<forall>c\<in>doubles. a \<le> b \<longrightarrow> b \<le> c \<longrightarrow> a \<le> c"
    by (auto simp: mem)
  have mono: "\<forall>a\<in>doubles. \<forall>b\<in>doubles. \<forall>c\<in>doubles. a \<le> b \<longrightarrow> a + c \<le> b + c"
    by (auto simp: mem round_mono)
  have incr: "\<forall>a\<in>doubles. \<forall>c\<in>doubles. a \<le> a + c"
  proof (intro ballI)
    fix a c :: binary64
    assume "a \<in> doubles" "c \<in> doubles"
    then obtain x y where a: "a = Binary64 x" "round_nearest_even x = x" and c: "c = Binary64 y"
      by (auto simp: mem)
    have "round_nearest_even x \<le> round_nearest_even (x + y)"
      by (rule round_mono) simp
    with a c show "a \<le> a + c"
      by simp
  qed
  from z closed refl trans mono incr show ?thesis
    unfolding monotone_addition_def by (intro conjI)
qed

text \<open>The non-negative values of an exact addition are such a set as well.\<close>

lemma monotone_addition_exact:
  "monotone_addition {a :: 'a::ordered_comm_monoid_add. 0 \<le> a}"
proof -
  let ?D = "{a :: 'a. 0 \<le> a}"
  have z: "(0::'a) \<in> ?D"
    by simp
  have closed: "\<forall>a\<in>?D. \<forall>c\<in>?D. a + c \<in> ?D"
    by (simp add: add_nonneg_nonneg)
  have refl: "\<forall>a\<in>?D. a \<le> a"
    by simp
  have trans: "\<forall>a\<in>?D. \<forall>b\<in>?D. \<forall>c\<in>?D. a \<le> b \<longrightarrow> b \<le> c \<longrightarrow> a \<le> c"
    by (meson order_trans)
  have mono: "\<forall>a\<in>?D. \<forall>b\<in>?D. \<forall>c\<in>?D. a \<le> b \<longrightarrow> a + c \<le> b + c"
    by (simp add: add_right_mono)
  have incr: "\<forall>a\<in>?D. \<forall>c\<in>?D. a \<le> a + c"
    by (simp add: add_increasing2)
  from z closed refl trans mono incr show ?thesis
    unfolding monotone_addition_def by (intro conjI)
qed

text \<open>
  The fork: its MRCAs, the values of three guilds, and the nodes from which each leaf is
  reached.
\<close>

lemma chain_unfold:
  "chain tree a n =
   (if n = a then Some (Inr [])
    else if unat n < get_num_nodes tree
    then map_option (map_sum id ((#) n)) (chain tree a (get_parent tree n))
    else Some (Inl OutOfRange))"
  by (simp add: chain_step chain_out_of_range)

lemma fork_ancestors:
  "ancestors 5 fork_parent 0 = [0]"
  "ancestors 5 fork_parent 2 = [2, 1, 0]"
  "ancestors 5 fork_parent 3 = [3, 0]"
  "ancestors 5 fork_parent 4 = [4, 1, 0]"
  by (simp_all add: fork_parent_def NULL_NODE_def ancestors_numeral)

lemma fork_find_mrca:
  "find_mrca fork_tree {3, 4} = 0" "find_mrca fork_tree {2, 3, 4} = 0"
proof -
  have "sorted_list_of_set {3, 4 :: 32 word} = [3, 4]"
    "sorted_list_of_set {2, 3, 4 :: 32 word} = [2, 3, 4]"
    by (simp_all add: sorted_list_of_set_insert_remove)
  then show "find_mrca fork_tree {3, 4} = 0" "find_mrca fork_tree {2, 3, 4} = 0"
    by (simp_all add: fork_tree_def find_mrca_fold_def pair_mrca_def fork_ancestors)
qed

lemma fork_fields:
  "get_num_nodes fork_tree = 5" "get_parent fork_tree = fork_parent"
  "get_edge_length fork_tree 1 = Binary64 (2 ^ 60)"
  "get_edge_length fork_tree 2 = Binary64 1"
  "get_edge_length fork_tree 3 = Binary64 100"
  "get_edge_length fork_tree 4 = Binary64 100"
  by (simp_all add: fork_tree_def)

lemma fork_parents:
  "fork_parent 1 = 0" "fork_parent 2 = 1" "fork_parent 3 = 0" "fork_parent 4 = 1"
  by (simp_all add: fork_parent_def)

lemma fork_values:
  "calculate_faiths_pd_optimized fork_tree [3, 4] = Some (Inr (Binary64 (2 ^ 60 + 256)))"
  "calculate_faiths_pd_optimized fork_tree [2, 3, 4] = Some (Inr (Binary64 (2 ^ 60)))"
  "calculate_faiths_pd_optimized fork_tree [3, 4, 2] = Some (Inr (Binary64 (2 ^ 60 + 256)))"
  by (simp_all add: calculate_faiths_pd_optimized_def fork_find_mrca insert_commute
        walk_uint8.simps fork_fields fork_parents zero_binary64_def round_nearest_even_def
        ulp.simps)

lemma fork_reached_from:
  "reaches fork_tree d 2 \<longleftrightarrow> d = 2 \<or> d = 1 \<or> d = 0 \<or> d = NULL_NODE"
  "reaches fork_tree d 3 \<longleftrightarrow> d = 3 \<or> d = 0 \<or> d = NULL_NODE"
  "reaches fork_tree d 4 \<longleftrightarrow> d = 4 \<or> d = 1 \<or> d = 0 \<or> d = NULL_NODE"
proof -
  have n: "chain fork_tree d NULL_NODE =
           (if d = NULL_NODE then Some (Inr []) else Some (Inl OutOfRange))"
    by (subst chain_unfold) (auto simp: fork_fields NULL_NODE_def)
  have 0: "chain fork_tree d 0 =
           (if d = 0 then Some (Inr []) else if d = NULL_NODE then Some (Inr [0])
            else Some (Inl OutOfRange))"
    by (subst chain_unfold) (auto simp: fork_fields fork_parent_def n)
  have 1: "chain fork_tree d 1 =
           (if d = 1 then Some (Inr []) else map_option (map_sum id ((#) 1)) (chain fork_tree d 0))"
    by (subst chain_unfold) (auto simp: fork_fields fork_parent_def)
  have 2: "chain fork_tree d 2 =
           (if d = 2 then Some (Inr []) else map_option (map_sum id ((#) 2)) (chain fork_tree d 1))"
    by (subst chain_unfold) (auto simp: fork_fields fork_parent_def)
  have 3: "chain fork_tree d 3 =
           (if d = 3 then Some (Inr []) else map_option (map_sum id ((#) 3)) (chain fork_tree d 0))"
    by (subst chain_unfold) (auto simp: fork_fields fork_parent_def)
  have 4: "chain fork_tree d 4 =
           (if d = 4 then Some (Inr []) else map_option (map_sum id ((#) 4)) (chain fork_tree d 1))"
    by (subst chain_unfold) (auto simp: fork_fields fork_parent_def)
  show "reaches fork_tree d 2 \<longleftrightarrow> d = 2 \<or> d = 1 \<or> d = 0 \<or> d = NULL_NODE"
    by (simp add: reaches_iff 2 1 0)
  show "reaches fork_tree d 3 \<longleftrightarrow> d = 3 \<or> d = 0 \<or> d = NULL_NODE"
    by (simp add: reaches_iff 3 0)
  show "reaches fork_tree d 4 \<longleftrightarrow> d = 4 \<or> d = 1 \<or> d = 0 \<or> d = NULL_NODE"
    by (simp add: reaches_iff 4 1 0)
qed

lemma fork_not_reached: "\<not> reaches fork_tree 0 NULL_NODE"
  unfolding reaches_def
  by (simp add: chain.simps fork_tree_def NULL_NODE_def)

lemma fork_is_mrca:
  "is_mrca fork_tree {3, 4} 0" "is_mrca fork_tree {2, 3, 4} 0"
  unfolding is_mrca_def
  using fork_not_reached
  by (auto simp: fork_reached_from NULL_NODE_def)

lemma fork_edges_doubles: "get_edge_length fork_tree n \<in> doubles"
  by (simp add: fork_tree_def doubles_def round_nearest_even_def ulp.simps)

text \<open>
  C6, with the further leaf walked last. Let \<open>D\<close> be a set of values of the accumulator
  that holds 0 and every edge length and on which the addition is monotone
  (\<open>monotone_addition\<close>: the non-negative doubles with their rounding addition are such
  a set, and so are the non-negative reals), and let \<open>find_mrca\<close> meet its guarantee on
  the two sets. Then for every list of leaf ids and every leaf \<open>x\<close>,
  \<open>calculate_faiths_pd_optimized\<close> returns a value on the list and on the list followed
  by \<open>x\<close>, and the second value is greater than or equal to the first. The nodes counted
  for the list are counted in the same order for the longer list, with further nodes in
  between and after them, and no addition of a non-negative length lowers the total.
\<close>

theorem appended_leaf_monotone:
  fixes tree :: "('a::{zero,plus,ord}) compact_tree"
  assumes ma: "monotone_addition D"
    and e: "\<forall>n. get_edge_length tree n \<in> D"
    and m: "2 \<le> length leaf_nodes \<longrightarrow>
            is_mrca tree (set leaf_nodes) (find_mrca tree (set leaf_nodes))"
    and m': "2 \<le> length (leaf_nodes @ [x]) \<longrightarrow>
             is_mrca tree (set (leaf_nodes @ [x])) (find_mrca tree (set (leaf_nodes @ [x])))"
  shows "\<exists>r r'. calculate_faiths_pd_optimized tree leaf_nodes = Some (Inr r)
               \<and> calculate_faiths_pd_optimized tree (leaf_nodes @ [x]) = Some (Inr r')
               \<and> r \<le> r'"
proof -
  let ?m = "find_mrca tree (set leaf_nodes)" and ?m' = "find_mrca tree (set (leaf_nodes @ [x]))"
  let ?e = "get_edge_length tree"
  from ma have z: "(0::'a) \<in> D" and zz: "(0::'a) \<le> 0"
    by (simp_all add: monotone_addition_def)
  have sub: "set (map ?e ns) \<subseteq> D" for ns
    using e by auto
  show ?thesis
  proof (cases "2 \<le> length (leaf_nodes @ [x])")
    case False
    then have "leaf_nodes = []"
      by (cases leaf_nodes) simp_all
    then have "calculate_faiths_pd_optimized tree leaf_nodes = Some (Inr 0)"
      and "calculate_faiths_pd_optimized tree (leaf_nodes @ [x]) = Some (Inr 0)"
      by (simp_all add: optimized_short)
    with zz show ?thesis by blast
  next
    case True
    with m' have mm': "is_mrca tree (set (leaf_nodes @ [x])) ?m'"
      by simp
    then have r': "\<forall>l\<in>set (leaf_nodes @ [x]). reaches tree ?m' l"
      by (simp add: is_mrca_def)
    note v' = optimized_visit_order[OF True r']
    show ?thesis
    proof (cases "2 \<le> length leaf_nodes")
      case False
      then have v: "calculate_faiths_pd_optimized tree leaf_nodes = Some (Inr 0)"
        by (simp add: optimized_short)
      have "subseq [] (map ?e (visit_order tree ?m' (leaf_nodes @ [x])))"
        by simp
      from foldl_subseq_mono[OF ma this sub z z zz]
      have "0 \<le> foldl (+) 0 (map ?e (visit_order tree ?m' (leaf_nodes @ [x])))"
        by simp
      with v v' show ?thesis by blast
    next
      case two: True
      with m have mm: "is_mrca tree (set leaf_nodes) ?m"
        by simp
      then have r: "\<forall>l\<in>set leaf_nodes. reaches tree ?m l"
        by (simp add: is_mrca_def)
      from r' have rr: "\<forall>l\<in>set leaf_nodes. reaches tree ?m' l"
        by simp
      have "subseq (map ?e (visit_order tree ?m leaf_nodes))
              (map ?e (visit_order tree ?m' (leaf_nodes @ [x])))"
        by (rule subseq_map) (rule visit_order_subseq[OF mm rr])
      from foldl_subseq_mono[OF ma this sub z z zz]
      have "foldl (+) 0 (map ?e (visit_order tree ?m leaf_nodes))
            \<le> foldl (+) 0 (map ?e (visit_order tree ?m' (leaf_nodes @ [x])))" .
      with optimized_visit_order[OF two r] v' show ?thesis by blast
    qed
  qed
qed

theorem appended_leaf_monotone_witness:
  "monotone_addition doubles
   \<and> (\<forall>n. get_edge_length fork_tree n \<in> doubles)
   \<and> is_mrca fork_tree (set [3, 4]) (find_mrca fork_tree (set [3, 4]))
   \<and> is_mrca fork_tree (set ([3, 4] @ [2])) (find_mrca fork_tree (set ([3, 4] @ [2])))
   \<and> calculate_faiths_pd_optimized fork_tree [3, 4] = Some (Inr (Binary64 (2 ^ 60 + 256)))
   \<and> calculate_faiths_pd_optimized fork_tree ([3, 4] @ [2]) = Some (Inr (Binary64 (2 ^ 60 + 256)))
   \<and> Binary64 (2 ^ 60 + 256) \<le> Binary64 (2 ^ 60 + 256)"
proof -
  have e: "\<forall>n. get_edge_length fork_tree n \<in> doubles"
    by (simp add: fork_edges_doubles)
  have m: "is_mrca fork_tree (set [3, 4]) (find_mrca fork_tree (set [3, 4]))"
    using fork_is_mrca(1) fork_find_mrca(1) by (simp add: insert_commute)
  have m': "is_mrca fork_tree (set ([3, 4] @ [2])) (find_mrca fork_tree (set ([3, 4] @ [2])))"
    using fork_is_mrca(2) fork_find_mrca(2) by (simp add: insert_commute)
  have v: "calculate_faiths_pd_optimized fork_tree [3, 4] = Some (Inr (Binary64 (2 ^ 60 + 256)))"
    by (rule fork_values(1))
  have v': "calculate_faiths_pd_optimized fork_tree ([3, 4] @ [2]) =
            Some (Inr (Binary64 (2 ^ 60 + 256)))"
    using fork_values(3) by simp
  from appended_leaf_monotone[OF monotone_addition_doubles e impI[OF m] impI[OF m']]
  obtain r r' where "calculate_faiths_pd_optimized fork_tree [3, 4] = Some (Inr r)"
    "calculate_faiths_pd_optimized fork_tree ([3, 4] @ [2]) = Some (Inr r')" "r \<le> r'"
    by blast
  with v v' have le: "Binary64 (2 ^ 60 + 256) \<le> Binary64 (2 ^ 60 + 256)"
    by simp
  from monotone_addition_doubles e m m' v v' le show ?thesis
    by (intro conjI)
qed

text \<open>
  C6, as stated for every way of adding the leaf, fails for doubles. On the fork with the
  non-negative edge lengths \<open>2\<^sup>6\<^sup>0\<close>, 1, 100 and 100, the guild of the leaves 3 and 4,
  listed in this order, has the value \<open>100 + 100 + 2\<^sup>6\<^sup>0\<close>, which rounds to
  \<open>2\<^sup>6\<^sup>0 + 256\<close>. With the further leaf 2 in front, and 3 and 4 in the same order as
  before, the walk of leaf 2 adds \<open>2\<^sup>6\<^sup>0\<close> first, and each later sum with 100 rounds back
  to \<open>2\<^sup>6\<^sup>0\<close>: the larger guild has the smaller value.
\<close>

theorem earlier_leaf_smaller_double:
  "2 \<notin> set [3, 4 :: CT_NODE_T]
   \<and> (\<forall>n. Binary64 0 \<le> get_edge_length fork_tree n)
   \<and> is_mrca fork_tree (set [3, 4]) (find_mrca fork_tree (set [3, 4]))
   \<and> is_mrca fork_tree (set [2, 3, 4]) (find_mrca fork_tree (set [2, 3, 4]))
   \<and> calculate_faiths_pd_optimized fork_tree [3, 4] = Some (Inr (Binary64 (2 ^ 60 + 256)))
   \<and> calculate_faiths_pd_optimized fork_tree [2, 3, 4] = Some (Inr (Binary64 (2 ^ 60)))
   \<and> \<not> Binary64 (2 ^ 60 + 256) \<le> Binary64 (2 ^ 60)"
proof -
  have x: "2 \<notin> set [3, 4 :: CT_NODE_T]"
    by simp
  have e: "\<forall>n. Binary64 0 \<le> get_edge_length fork_tree n"
    by (simp add: fork_tree_def)
  have m: "is_mrca fork_tree (set [3, 4]) (find_mrca fork_tree (set [3, 4]))"
    using fork_is_mrca(1) fork_find_mrca(1) by (simp add: insert_commute)
  have m': "is_mrca fork_tree (set [2, 3, 4]) (find_mrca fork_tree (set [2, 3, 4]))"
    using fork_is_mrca(2) fork_find_mrca(2) by (simp add: insert_commute)
  have lt: "\<not> Binary64 (2 ^ 60 + 256) \<le> Binary64 (2 ^ 60)"
    by simp
  from x e m m' fork_values(1) fork_values(2) lt show ?thesis
    by (intro conjI)
qed

section \<open>The dump\<close>

lemma object_bytes_little_endian: "object_bytes LittleEndian v = le32 v"
  by (simp add: object_bytes_def le32_def)

lemma write_u32_little_endian: "write_u32 LittleEndian out v = out @ le32 v"
  by (simp add: write_u32_def object_bytes_little_endian)

lemma write_children:
  "fold (\<lambda>child out'. out' @ le32 child) children out = out @ concat (map le32 children)"
  by (induction children arbitrary: out) simp_all

lemma write_string_little_endian:
  assumes "length str < 2 ^ 32"
  shows "write_string LittleEndian out str = out @ le32 (of_nat (length str)) @ str"
proof -
  have "unat (of_nat (length str) :: 32 word) = length str"
    using assms by (simp add: unat_of_nat)
  then show ?thesis
    by (simp add: write_string_def write_u32_little_endian)
qed

lemma parent_index_parent_of: "parent_index (parent_of tree n) = get_parent tree n"
  by (simp add: parent_index_def parent_of_def NULL_NODE_def)

lemma dump_node_layout:
  assumes "length (get_label tree i) < 2 ^ 32"
  shows "dump_node LittleEndian f32_bits tree out i = out @ layout_node f32_bits tree (unat i)"
  using assms
  by (simp add: dump_node_def layout_node_def Let_def write_u32_little_endian write_children
        write_string_little_endian write_f32_def object_bytes_little_endian
        parent_index_parent_of)

lemma unat_word_succ:
  fixes i n :: "32 word"
  assumes "i < n"
  shows "unat (i + 1) = Suc (unat i)"
proof -
  from assms have "i \<noteq> - 1"
    by (metis word_order.extremum_strict)
  then have "1 + i \<noteq> 0"
    by (metis add.commute add_eq_0_iff)
  then show ?thesis
    by (simp add: unatSuc add.commute)
qed

lemma dump_nodes_layout:
  assumes "\<forall>j<unat num_nodes. length (get_label tree (of_nat j)) < 2 ^ 32"
    and "i \<le> num_nodes"
  shows "dump_nodes LittleEndian f32_bits tree num_nodes i out =
         out @ concat (map (layout_node f32_bits tree) [unat i..<unat num_nodes])"
  using assms
proof (induction LittleEndian f32_bits tree num_nodes i out rule: dump_nodes.induct)
  case (1 f32_bits tree num_nodes i out)
  show ?case
  proof (cases "i < num_nodes")
    case False
    with 1(3) have "i = num_nodes" by simp
    then show ?thesis by (simp add: dump_nodes.simps)
  next
    case True
    then have lt: "unat i < unat num_nodes"
      by (simp add: word_less_nat_alt)
    have suc: "unat (i + 1) = Suc (unat i)"
      using True by (rule unat_word_succ)
    have le: "i + 1 \<le> num_nodes"
      using True by (rule inc_le)
    have "length (get_label tree (of_nat (unat i))) < 2 ^ 32"
      using 1(2) lt by blast
    then have lab: "length (get_label tree i) < 2 ^ 32"
      by simp
    have "dump_nodes LittleEndian f32_bits tree num_nodes i out =
          dump_nodes LittleEndian f32_bits tree num_nodes (i + 1)
            (dump_node LittleEndian f32_bits tree out i)"
      using True by (simp add: dump_nodes.simps)
    also have "\<dots> = dump_node LittleEndian f32_bits tree out i
                      @ concat (map (layout_node f32_bits tree) [unat (i + 1)..<unat num_nodes])"
      using 1(1)[OF True 1(2) le] .
    also have "\<dots> = out @ concat (map (layout_node f32_bits tree) [unat i..<unat num_nodes])"
      using lt by (simp add: dump_node_layout[OF lab] suc upt_conv_Cons)
    finally show ?thesis .
  qed
qed

text \<open>
  C7, on a little-endian host and with label lengths that fit in 32 bits. For a tree with
  fewer than \<open>2\<^sup>3\<^sup>2\<close> nodes (the node ids are 32-bit) whose labels are shorter than
  \<open>2\<^sup>3\<^sup>2\<close> bytes, the file written by \<open>dump_tree_structure\<close> is exactly the
  layout of the specification: \<open>u32 num_nodes\<close>, \<open>u32 num_leaves\<close>, then for each node
  in ascending order of its id the \<open>u32\<close> parent index (\<open>0xFFFFFFFF\<close> when the node has no
  parent), \<open>u32 num_children\<close>, the child indices as \<open>u32\<close>, \<open>u32 label_len\<close>, the
  bytes of the label with nothing after them, and the \<open>f32\<close> edge length; every \<open>u32\<close>
  and the \<open>f32\<close> pattern with the least significant byte first.
\<close>

theorem dump_is_spec_layout:
  assumes "get_num_nodes tree < 2 ^ 32"
    and "\<forall>i<get_num_nodes tree. length (get_label tree (of_nat i)) < 2 ^ 32"
  shows "dump_tree_structure LittleEndian f32_bits tree = layout f32_bits tree"
proof -
  have n: "unat (of_nat (get_num_nodes tree) :: 32 word) = get_num_nodes tree"
    using assms(1) by (simp add: unat_of_nat)
  have "\<forall>j<unat (of_nat (get_num_nodes tree) :: 32 word).
          length (get_label tree (of_nat j)) < 2 ^ 32"
    using assms(2) n by simp
  from dump_nodes_layout[OF this, of 0 f32_bits] n show ?thesis
    by (simp add: dump_tree_structure_def layout_def Let_def write_u32_little_endian)
qed


lemma scenario_layout:
  "layout scenario_f32_bits scenario_tree =
     [5, 0, 0, 0, 3, 0, 0, 0,
      0xFF, 0xFF, 0xFF, 0xFF, 2, 0, 0, 0, 1, 0, 0, 0, 4, 0, 0, 0, 1, 0, 0, 0, 0x52, 0, 0, 0, 0,
      0, 0, 0, 0, 2, 0, 0, 0, 2, 0, 0, 0, 3, 0, 0, 0, 1, 0, 0, 0, 0x41, 0, 0, 0, 0x40,
      1, 0, 0, 0, 0, 0, 0, 0, 1, 0, 0, 0, 0x58, 0, 0, 0x80, 0x3F,
      1, 0, 0, 0, 0, 0, 0, 0, 1, 0, 0, 0, 0x59, 0, 0, 0x80, 0x3F,
      0, 0, 0, 0, 0, 0, 0, 0, 1, 0, 0, 0, 0x42, 0, 0, 0x40, 0x40]"
proof -
  have u: "[0..<5] = [0, 1, 2, 3, 4 :: nat]"
    by code_simp
  have n: "get_num_nodes scenario_tree = 5" "get_num_leaves scenario_tree = 3"
    by (simp_all add: scenario_tree_def)
  show ?thesis
    unfolding layout_def n u
    by (simp add: layout_node_def le32_def scenario_tree_def scenario_parent_def
          scenario_f32_bits_def parent_index_def parent_of_def NULL_NODE_def)
qed

theorem dump_is_spec_layout_witness:
  "get_num_nodes scenario_tree < 2 ^ 32
   \<and> list_all (\<lambda>n. length (get_label scenario_tree n) < 2 ^ 32) [0, 1, 2, 3, 4]
   \<and> dump_tree_structure LittleEndian scenario_f32_bits scenario_tree =
     [5, 0, 0, 0, 3, 0, 0, 0,
      0xFF, 0xFF, 0xFF, 0xFF, 2, 0, 0, 0, 1, 0, 0, 0, 4, 0, 0, 0, 1, 0, 0, 0, 0x52, 0, 0, 0, 0,
      0, 0, 0, 0, 2, 0, 0, 0, 2, 0, 0, 0, 3, 0, 0, 0, 1, 0, 0, 0, 0x41, 0, 0, 0, 0x40,
      1, 0, 0, 0, 0, 0, 0, 0, 1, 0, 0, 0, 0x58, 0, 0, 0x80, 0x3F,
      1, 0, 0, 0, 0, 0, 0, 0, 1, 0, 0, 0, 0x59, 0, 0, 0x80, 0x3F,
      0, 0, 0, 0, 0, 0, 0, 0, 1, 0, 0, 0, 0x42, 0, 0, 0x40, 0x40]"
proof -
  have h1: "get_num_nodes scenario_tree < 2 ^ 32"
    by (simp add: scenario_tree_def)
  have h2: "\<forall>i<get_num_nodes scenario_tree. length (get_label scenario_tree (of_nat i)) < 2 ^ 32"
    by (simp add: scenario_tree_def)
  have h3: "list_all (\<lambda>n. length (get_label scenario_tree n) < 2 ^ 32) [0, 1, 2, 3, 4]"
    by (simp add: scenario_tree_def)
  from dump_is_spec_layout[OF h1 h2, of scenario_f32_bits]
  have "dump_tree_structure LittleEndian scenario_f32_bits scenario_tree =
        layout scenario_f32_bits scenario_tree" .
  then have d: "dump_tree_structure LittleEndian scenario_f32_bits scenario_tree =
     [5, 0, 0, 0, 3, 0, 0, 0,
      0xFF, 0xFF, 0xFF, 0xFF, 2, 0, 0, 0, 1, 0, 0, 0, 4, 0, 0, 0, 1, 0, 0, 0, 0x52, 0, 0, 0, 0,
      0, 0, 0, 0, 2, 0, 0, 0, 2, 0, 0, 0, 3, 0, 0, 0, 1, 0, 0, 0, 0x41, 0, 0, 0, 0x40,
      1, 0, 0, 0, 0, 0, 0, 0, 1, 0, 0, 0, 0x58, 0, 0, 0x80, 0x3F,
      1, 0, 0, 0, 0, 0, 0, 0, 1, 0, 0, 0, 0x59, 0, 0, 0x80, 0x3F,
      0, 0, 0, 0, 0, 0, 0, 0, 1, 0, 0, 0, 0x42, 0, 0, 0x40, 0x40]"
    by (simp only: scenario_layout)
  from h1 h3 d show ?thesis
    by (intro conjI)
qed

text \<open>
  What the same code writes elsewhere. Every field is appended to the stream, so the file
  starts with the two counts in the byte order of the host.
\<close>

lemma write_children_host:
  "fold (\<lambda>child out'. out' @ object_bytes host child) children out =
   out @ concat (map (object_bytes host) children)"
  by (induction children arbitrary: out) simp_all

lemma dump_node_append: "\<exists>r. dump_node host f32_bits tree out i = out @ r"
  by (simp add: dump_node_def Let_def write_f32_def write_string_def write_u32_def
        write_children_host)

lemma dump_nodes_append: "\<exists>r. dump_nodes host f32_bits tree num_nodes i out = out @ r"
proof (induction host f32_bits tree num_nodes i out rule: dump_nodes.induct)
  case (1 host f32_bits tree num_nodes i out)
  show ?case
  proof (cases "i < num_nodes")
    case False
    then show ?thesis by (simp add: dump_nodes.simps)
  next
    case True
    from dump_node_append obtain r1 where r1: "dump_node host f32_bits tree out i = out @ r1"
      by blast
    from 1[OF True] obtain r2 where
      "dump_nodes host f32_bits tree num_nodes (i + 1) (dump_node host f32_bits tree out i) =
       dump_node host f32_bits tree out i @ r2"
      by blast
    with r1 True have "dump_nodes host f32_bits tree num_nodes i out = out @ r1 @ r2"
      by (simp add: dump_nodes.simps)
    then show ?thesis by blast
  qed
qed

lemma dump_header:
  "take 8 (dump_tree_structure host f32_bits tree) =
   object_bytes host (of_nat (get_num_nodes tree)) @ object_bytes host (of_nat (get_num_leaves tree))"
proof -
  let ?h = "object_bytes host (of_nat (get_num_nodes tree))
            @ object_bytes host (of_nat (get_num_leaves tree))"
  have len: "length ?h = 8"
    by (cases host) (simp_all add: object_bytes_def)
  from dump_nodes_append obtain r where
    "dump_nodes host f32_bits tree (of_nat (get_num_nodes tree)) 0 ?h = ?h @ r"
    by blast
  then have "dump_tree_structure host f32_bits tree = ?h @ r"
    by (simp add: dump_tree_structure_def Let_def write_u32_def)
  with len show ?thesis
    by simp
qed

lemma length_long_label: "length long_label = 2 ^ 32"
  unfolding long_label_def by (rule length_replicate)

lemma long_label_dump:
  "dump_tree_structure LittleEndian scenario_f32_bits long_label_tree =
     [1, 0, 0, 0, 1, 0, 0, 0, 0xFF, 0xFF, 0xFF, 0xFF, 0, 0, 0, 0, 0, 0, 0, 0, 0, 0, 0, 0]"
proof -
  have len: "(of_nat (length long_label) :: 32 word) = 0"
    by (simp add: length_long_label)
  have node: "dump_node LittleEndian scenario_f32_bits long_label_tree out 0 =
              out @ [0xFF, 0xFF, 0xFF, 0xFF, 0, 0, 0, 0, 0, 0, 0, 0, 0, 0, 0, 0]" for out
    by (simp add: dump_node_def Let_def write_string_def len write_u32_def write_f32_def
          object_bytes_def long_label_tree_def NULL_NODE_def scenario_f32_bits_def)
  have "dump_nodes LittleEndian scenario_f32_bits long_label_tree 1 0 out =
        dump_node LittleEndian scenario_f32_bits long_label_tree out 0" for out
    by (simp add: dump_nodes.simps[of _ _ _ 1 0] dump_nodes.simps[of _ _ _ 1 1])
  moreover have "get_num_nodes long_label_tree = 1" "get_num_leaves long_label_tree = 1"
    by (simp_all add: long_label_tree_def)
  ultimately show ?thesis
    by (simp add: dump_tree_structure_def Let_def node write_u32_def object_bytes_def)
qed

lemma long_label_layout:
  "length (layout scenario_f32_bits long_label_tree) = 2 ^ 32 + 24"
  by (simp add: layout_def layout_node_def le32_def long_label_tree_def length_long_label)

text \<open>
  C7, as stated for every tree (and with no word on the host), fails. On a big-endian host
  the code writes the most significant byte of every field first: the file of the scenario
  tree starts with \<open>00 00 00 05\<close> where the layout has \<open>05 00 00 00\<close>. And on a
  little-endian host, for a node whose label has \<open>2\<^sup>3\<^sup>2\<close> bytes, the length is cut to the
  \<^verbatim>\<open>uint32_t\<close> 0 and no byte of the label is written: the file has 24 bytes, the layout
  \<open>2\<^sup>3\<^sup>2 + 24\<close>.
\<close>

theorem dump_differs_from_layout:
  "take 8 (dump_tree_structure BigEndian scenario_f32_bits scenario_tree) = [0, 0, 0, 5, 0, 0, 0, 3]
   \<and> take 8 (layout scenario_f32_bits scenario_tree) = [5, 0, 0, 0, 3, 0, 0, 0]
   \<and> dump_tree_structure BigEndian scenario_f32_bits scenario_tree \<noteq>
       layout scenario_f32_bits scenario_tree
   \<and> length (get_label long_label_tree 0) = 2 ^ 32
   \<and> dump_tree_structure LittleEndian scenario_f32_bits long_label_tree =
       [1, 0, 0, 0, 1, 0, 0, 0, 0xFF, 0xFF, 0xFF, 0xFF, 0, 0, 0, 0, 0, 0, 0, 0, 0, 0, 0, 0]
   \<and> length (layout scenario_f32_bits long_label_tree) = 2 ^ 32 + 24
   \<and> dump_tree_structure LittleEndian scenario_f32_bits long_label_tree \<noteq>
       layout scenario_f32_bits long_label_tree"
proof -
  have b: "take 8 (dump_tree_structure BigEndian scenario_f32_bits scenario_tree) =
           [0, 0, 0, 5, 0, 0, 0, 3]"
    by (simp add: dump_header object_bytes_def scenario_tree_def)
  have l: "take 8 (layout scenario_f32_bits scenario_tree) = [5, 0, 0, 0, 3, 0, 0, 0]"
    by (simp add: layout_def le32_def scenario_tree_def)
  from b l have ne: "dump_tree_structure BigEndian scenario_f32_bits scenario_tree \<noteq>
                     layout scenario_f32_bits scenario_tree"
    by auto
  have ll: "length (get_label long_label_tree 0) = 2 ^ 32"
    by (simp add: long_label_tree_def length_long_label)
  note d = long_label_dump
  have "length (dump_tree_structure LittleEndian scenario_f32_bits long_label_tree) = 24"
    by (simp add: long_label_dump)
  note y = long_label_layout
  with \<open>length (dump_tree_structure LittleEndian scenario_f32_bits long_label_tree) = 24\<close>
  have ne': "dump_tree_structure LittleEndian scenario_f32_bits long_label_tree \<noteq>
             layout scenario_f32_bits long_label_tree"
    by auto
  from b l ne ll d y ne' show ?thesis
    by (intro conjI)
qed

end
